theory Spec2Isabelle
  imports Complex_Main "HOL-Library.Char_ord" "HOL-Library.List_Lexorder"
begin

section \<open>Video Segment Annotator: a shallow embedding of \<open>video_annotator.py\<close>\<close>

text \<open>
  The class \<open>VideoSegmentAnnotator\<close> keeps its state in instance attributes and mutates
  them from GUI callbacks. Each callback is modelled as a function from the state before
  to the notice shown (if any) and the state after. Widgets, the status line and the
  redraw of the picture are external collaborators and carry no state of their own here;
  a \<open>messagebox\<close> call is the \<open>Inl\<close> outcome of the callback that makes it.

  A Python float is modelled by the rational number it denotes (\<open>rat\<close>), Python's
  unbounded integers by \<open>int\<close>. Frame counts, frame indices and the arithmetic on them
  are integers in the source as well. Time stamps, their comparison and their display are
  computed exactly. Where the source truncates a product or quotient of floats to a frame
  index (clip extraction, scrubbing), the operations are the double-precision ones,
  \<open>fmul\<close> and \<open>fdiv\<close> below, whose results are rounded to the nearest double.
\<close>

subsection \<open>Python numerics and string formatting\<close>

definition py_int :: "rat \<Rightarrow> int" where
  \<comment> \<open>\<open>int(x)\<close> on a float: truncation towards zero.\<close>
  "py_int x = (if 0 \<le> x then \<lfloor>x\<rfloor> else \<lceil>x\<rceil>)"

definition py_floordiv :: "rat \<Rightarrow> rat \<Rightarrow> rat" where
  \<comment> \<open>\<open>x // y\<close> on floats, for a divisor other than zero (the source divides by 60 only).\<close>
  "py_floordiv x y = of_int \<lfloor>x / y\<rfloor>"

definition py_mod :: "rat \<Rightarrow> rat \<Rightarrow> rat" where
  \<comment> \<open>\<open>x % y\<close> on floats, for a divisor other than zero: the result has the divisor's sign.\<close>
  "py_mod x y = x - y * of_int \<lfloor>x / y\<rfloor>"

text \<open>
  Double precision (IEEE 754 binary64, rounding to nearest, ties to even). A double other
  than zero is an integer of at most 53 bits times a power of two; \<open>round_double x\<close> is
  the double nearest to \<open>x\<close>. The exponent is not bounded here: overflow and subnormal
  numbers lie far outside the seconds, percentages and frame counts of the program.
  An operation rounds its operands first, so that an argument such as \<open>4.1\<close> stands for
  the double the program holds for it; on a double, rounding is the identity.
\<close>

fun bit_length :: "nat \<Rightarrow> nat" where
  "bit_length n = (if n = 0 then 0 else Suc (bit_length (n div 2)))"

declare bit_length.simps [simp del]

definition pow2 :: "int \<Rightarrow> rat" where
  "pow2 k = (if 0 \<le> k then 2 ^ nat k else 1 / 2 ^ nat (- k))"

definition binade :: "rat \<Rightarrow> int" where
  \<comment> \<open>For \<open>x > 0\<close>, the exponent \<open>e\<close> with \<open>pow2 e \<le> x < pow2 (e + 1)\<close>.\<close>
  "binade x =
     (if 1 \<le> x then int (bit_length (nat \<lfloor>x\<rfloor>)) - 1
      else - int (bit_length (nat (\<lceil>1 / x\<rceil> - 1))))"

definition round_half_even :: "rat \<Rightarrow> int" where
  "round_half_even x =
     (let f = \<lfloor>x\<rfloor>; d = x - of_int f
      in if d < 1 / 2 then f
         else if 1 / 2 < d then f + 1
         else if even f then f else f + 1)"

definition round_double :: "rat \<Rightarrow> rat" where
  "round_double x =
     (if x = 0 then 0
      else let q = binade \<bar>x\<bar> - 52
           in of_int (round_half_even (x / pow2 q)) * pow2 q)"

definition fmul :: "rat \<Rightarrow> rat \<Rightarrow> rat" where
  \<comment> \<open>\<open>x * y\<close> on floats.\<close>
  "fmul x y = round_double (round_double x * round_double y)"

definition fdiv :: "rat \<Rightarrow> rat \<Rightarrow> rat" where
  \<comment> \<open>\<open>x / y\<close> on floats, for a divisor other than zero (the source divides by 100 only).\<close>
  "fdiv x y = round_double (round_double x / round_double y)"

definition digit_char :: "nat \<Rightarrow> char" where
  "digit_char d = ''0123456789'' ! (d mod 10)"

fun str_nat :: "nat \<Rightarrow> string" where
  "str_nat n = (if n < 10 then [digit_char n] else str_nat (n div 10) @ [digit_char (n mod 10)])"

declare str_nat.simps [simp del]

definition zfill :: "nat \<Rightarrow> string \<Rightarrow> string" where
  "zfill w s = replicate (w - length s) (CHR ''0'') @ s"

definition format_d :: "nat \<Rightarrow> int \<Rightarrow> string" where
  \<comment> \<open>The format specification \<open>{n:0wd}\<close>: decimal digits, zero-padded to a minimal width
      \<open>w\<close> that counts the sign.\<close>
  "format_d w n =
     (if n < 0 then CHR ''-'' # zfill (w - 1) (str_nat (nat (- n)))
      else zfill w (str_nat (nat n)))"

subsection \<open>The annotator state\<close>

datatype error =
    NoStartMarked
  | InvalidRange
  | NoSegmentsToRemove
  | NoSegmentsToClear
  | CouldNotOpenVideo
  | CouldNotOpenSegment
  | NoExtractedFrames
  | NoSegmentFolders
  | JSONDecodeError
  | CopyError
  | IndexError

record annotator =
  video_files :: "string list"
  current_video_index :: nat
  current_video_path :: "string option"
  cap :: "string option"
  is_playing :: bool
  current_frame :: int
  total_frames :: int
  fps :: rat
  video_duration :: rat
  segments :: "(rat \<times> rat) list"
  temp_start_time :: "rat option"

type_synonym 'a outcome = "(error + 'a) \<times> annotator"

subsection \<open>Time display\<close>

definition format_time :: "rat \<Rightarrow> string" where
  "format_time seconds =
     (let minutes = py_int (py_floordiv seconds 60);
          seconds' = py_int (py_mod seconds 60)
      in format_d 2 minutes @ '':'' @ format_d 2 seconds')"

text \<open>
  The contract as the specification words it: truncate to an integer first, then split
  into minutes and seconds, each written with at least two digits.
\<close>

definition two_digits :: "nat \<Rightarrow> string" where
  "two_digits n = (if n < 10 then CHR ''0'' # str_nat n else str_nat n)"

definition format_time_spec :: "rat \<Rightarrow> string" where
  "format_time_spec s =
     (let t = nat \<lfloor>s\<rfloor> in two_digits (t div 60) @ '':'' @ two_digits (t mod 60))"

subsection \<open>Segment ledger\<close>

definition current_time :: "annotator \<Rightarrow> rat" where
  \<comment> \<open>\<open>self.current_frame / self.fps if self.fps > 0 else 0\<close>\<close>
  "current_time s = (if fps s > 0 then of_int (current_frame s) / fps s else 0)"

definition mark_start :: "annotator \<Rightarrow> annotator" where
  "mark_start s = s\<lparr>temp_start_time := Some (current_time s)\<rparr>"

definition mark_end :: "annotator \<Rightarrow> unit outcome" where
  "mark_end s =
     (case temp_start_time s of
        None \<Rightarrow> (Inl NoStartMarked, s)
      | Some start \<Rightarrow>
          if current_time s \<le> start then (Inl InvalidRange, s)
          else (Inr (), s\<lparr>segments := segments s @ [(start, current_time s)],
                          temp_start_time := None\<rparr>))"

definition clear_last_segment :: "annotator \<Rightarrow> unit outcome" where
  "clear_last_segment s =
     (if segments s \<noteq> [] then (Inr (), s\<lparr>segments := butlast (segments s)\<rparr>)
      else (Inl NoSegmentsToRemove, s))"

definition clear_all_segments :: "annotator \<Rightarrow> unit outcome" where
  "clear_all_segments s =
     (if segments s \<noteq> [] then (Inr (), s\<lparr>segments := [], temp_start_time := None\<rparr>)
      else (Inl NoSegmentsToClear, s))"

subsection \<open>Seeking\<close>



definition on_progress_change :: "rat \<Rightarrow> annotator \<Rightarrow> annotator" where
  \<comment> \<open>\<open>val\<close> is \<open>float(value)\<close>, the position of the scale, which runs from 0 to 100;
      \<open>progress / 100 * self.total_frames\<close> is a float quotient, then a float product.\<close>
  "on_progress_change val s =
     (if \<not> is_playing s
      then s\<lparr>current_frame := py_int (fmul (fdiv val 100) (of_int (total_frames s)))\<rparr>
      else s)"

subsection \<open>Loading videos\<close>

text \<open>
  A path inside one directory is modelled by its file name; paths of one directory compare
  as their names do. \<open>Path.glob\<close> with a pattern \<open>prefix*suffix\<close> keeps the names that
  start with the prefix and end with the suffix, the star standing for what lies between
  (possibly nothing); matching is case-sensitive, as on a POSIX file system.
\<close>

definition startswith :: "string \<Rightarrow> string \<Rightarrow> bool" where
  "startswith name p = (take (length p) name = p)"

definition endswith :: "string \<Rightarrow> string \<Rightarrow> bool" where
  "endswith name sfx = (drop (length name - length sfx) name = sfx)"

definition glob_match :: "string \<Rightarrow> string \<Rightarrow> string \<Rightarrow> bool" where
  "glob_match p sfx name =
     (length p + length sfx \<le> length name \<and> startswith name p \<and> endswith name sfx)"

definition glob :: "string list \<Rightarrow> string \<Rightarrow> string \<Rightarrow> string list" where
  "glob listing p sfx = filter (glob_match p sfx) listing"

definition video_extensions :: "string list" where
  "video_extensions = [''.mp4'', ''.avi'', ''.mov'', ''.MOV'']"

text \<open>
  \<open>cv2.VideoCapture\<close> is a parameter: \<open>opener path\<close> is \<open>None\<close> when the capture does not
  open, and otherwise the frame count and the frame rate it reports. The attribute \<open>cap\<close>
  holds the path of the capture object last created.
\<close>

type_synonym opener = "string \<Rightarrow> (int \<times> rat) option"

definition load_current_video :: "opener \<Rightarrow> annotator \<Rightarrow> unit outcome" where
  "load_current_video opener s =
     (if video_files s = [] then (Inr (), s)
      else if length (video_files s) \<le> current_video_index s then (Inl IndexError, s)
      else
        let path = video_files s ! current_video_index s;
            s1 = s\<lparr>current_video_path := Some path, cap := Some path\<rparr>
        in case opener path of
             None \<Rightarrow> (Inl CouldNotOpenVideo, s1)
           | Some (n, r) \<Rightarrow>
               (Inr (), s1\<lparr>total_frames := n, fps := r,
                           video_duration := (if r > 0 then of_int n / r else 0),
                           current_frame := 0, is_playing := False,
                           segments := [], temp_start_time := None\<rparr>))"

definition find_videos :: "string list \<Rightarrow> string list" where
  \<comment> \<open>The loop over \<open>video_extensions\<close> in \<open>load_videos\<close>: one glob per extension, hidden
      files filtered out; \<open>listing\<close> holds the names in the videos folder.\<close>
  "find_videos listing =
     concat (map (\<lambda>ext. filter (\<lambda>f. \<not> startswith f ''.'') (glob listing [] ext))
                 video_extensions)"

definition load_videos :: "opener \<Rightarrow> string list \<Rightarrow> annotator \<Rightarrow> unit outcome" where
  "load_videos opener listing s =
     (let found = find_videos listing;
          s1 = s\<lparr>video_files := found\<rparr>
      in if found = [] then (Inr (), s1)
         else load_current_video opener
                (s1\<lparr>video_files := sort found, current_video_index := 0\<rparr>))"

definition previous_video :: "opener \<Rightarrow> annotator \<Rightarrow> unit outcome" where
  "previous_video opener s =
     (if video_files s \<noteq> [] \<and> current_video_index s > 0
      then load_current_video opener (s\<lparr>current_video_index := current_video_index s - 1\<rparr>)
      else (Inr (), s))"

definition next_video :: "opener \<Rightarrow> annotator \<Rightarrow> unit outcome" where
  "next_video opener s =
     (if video_files s \<noteq> [] \<and> current_video_index s + 1 < length (video_files s)
      then load_current_video opener (s\<lparr>current_video_index := current_video_index s + 1\<rparr>)
      else (Inr (), s))"

subsection \<open>Segment exporter\<close>

text \<open>
  A video is its frame rate and the sequence of frames a decoder reads from it. Reading
  at position \<open>pos\<close> yields the frame there, and fails at any position outside the
  sequence.
\<close>

record 'f video =
  v_fps :: rat
  v_frames :: "'f list"

definition read_frame :: "'f list \<Rightarrow> int \<Rightarrow> 'f option" where
  "read_frame src pos =
     (if 0 \<le> pos \<and> pos < int (length src) then Some (src ! nat pos) else None)"

fun write_range :: "'f list \<Rightarrow> int \<Rightarrow> int list \<Rightarrow> 'f list" where
  \<comment> \<open>The loop \<open>for frame_num in range(start_frame, end_frame)\<close>: one sequential read per
      iteration, leaving the loop at the first read that fails.\<close>
  "write_range src pos [] = []"
| "write_range src pos (frame_num # rest) =
     (case read_frame src pos of
        None \<Rightarrow> []
      | Some frame \<Rightarrow> frame # write_range src (pos + 1) rest)"

definition create_segment_video :: "'f video \<Rightarrow> rat \<Rightarrow> rat \<Rightarrow> 'f video" where
  "create_segment_video src start_time end_time =
     (let fps' = v_fps src;
          start_frame = py_int (fmul start_time fps');
          end_frame = py_int (fmul end_time fps')
      in \<lparr>v_fps = fps',
          v_frames = write_range (v_frames src) start_frame [start_frame..end_frame - 1]\<rparr>)"

text \<open>
  The export record written as \<open>metadata.json\<close>. Its two path fields repeat the paths
  the function was called with and are left out.
\<close>

record segment_metadata =
  original_video :: string
  segment_start_time :: rat
  segment_end_time :: rat
  segment_duration :: rat
  md_fps :: rat
  md_total_frames :: nat
  extracted_frames :: nat

definition frame_name :: "nat \<Rightarrow> string" where
  \<comment> \<open>\<open>f"frame_{frame_count+1:04d}.jpg"\<close>, as a function of \<open>frame_count\<close>.\<close>
  "frame_name frame_count = ''frame_'' @ format_d 4 (int frame_count + 1) @ ''.jpg''"

fun write_images :: "'f list \<Rightarrow> nat \<Rightarrow> (string \<times> 'f) list \<times> nat" where
  \<comment> \<open>The \<open>while True\<close> loop over the clip: the files written, in order, and the final
      \<open>frame_count\<close>.\<close>
  "write_images [] frame_count = ([], frame_count)"
| "write_images (frame # rest) frame_count =
     (let (written, n) = write_images rest (frame_count + 1)
      in ((frame_name frame_count, frame) # written, n))"

definition extract_segment_frames ::
  "string \<Rightarrow> 'f video option \<Rightarrow> rat \<Rightarrow> rat \<Rightarrow> error + (string \<times> 'f) list \<times> segment_metadata" where
  \<comment> \<open>\<open>clip\<close>: what \<open>cv2.VideoCapture(segment_path)\<close> gives, \<open>None\<close> when it does not open.\<close>
  "extract_segment_frames video_name clip start_time end_time =
     (case clip of
        None \<Rightarrow> Inl CouldNotOpenSegment
      | Some c \<Rightarrow>
          let (written, frame_count) = write_images (v_frames c) 0
          in Inr (written,
                  \<lparr>original_video = video_name,
                   segment_start_time = start_time,
                   segment_end_time = end_time,
                   segment_duration = end_time - start_time,
                   md_fps = v_fps c,
                   md_total_frames = frame_count,
                   extracted_frames = frame_count\<rparr>))"

subsection \<open>Dataset unifier\<close>

text \<open>
  The part of the project tree the unifier touches. \<open>frames_dir\<close> is the listing of
  \<open>segments/frames\<close> (\<open>None\<close> when the directory is absent): each entry is a plain file or
  a folder, a folder holding the names of its entries other than \<open>metadata.json\<close> and the
  content of \<open>metadata.json\<close> when it has one. The output side records whether
  \<open>unified_dataset\<close> exists, the listings of its \<open>images\<close> and \<open>metadata\<close> directories
  (\<open>None\<close> when absent), and the two files written at the end.

  Whether \<open>shutil.copy2\<close> and \<open>shutil.copy\<close> succeed on a file of a folder are the
  parameters \<open>copy2\<close> and \<open>copy\<close>, each taking the folder name and the file name. The
  source catches a failing frame copy and retries it with \<open>shutil.copy\<close>. It does not
  guard the handling of \<open>metadata.json\<close>: when \<open>json.load\<close> rejects the content, or when
  \<open>shutil.copy2\<close> of the file fails, the exception leaves the run at that point, with
  what was copied so far in place and no summary written. A copy that fails leaves no
  file behind. Creating the directories and writing the two final files succeed.
\<close>

datatype json_file =
    Malformed
  | Wellformed string

datatype entry =
    is_file: RegularFile
  | is_dir: Folder (files: "string list") (metadata_json: "json_file option")

record segment_info =
  segment_name :: string
  frames_count :: nat
  metadata :: "string option"

record dataset_summary =
  summary_total_frames :: nat
  summary_total_segments :: nat
  summary_segments :: "segment_info list"

record project_fs =
  frames_dir :: "(string \<times> entry) list option"
  unified_dataset_dir :: bool
  dataset_images_dir :: "string list option"
  dataset_metadata_dir :: "string list option"
  summary_file :: "dataset_summary option"
  frame_list_file :: "string list option"

type_synonym copier = "string \<Rightarrow> string \<Rightarrow> bool"

definition mkdir_exist_ok :: "string list option \<Rightarrow> string list option" where
  "mkdir_exist_ok d = (case d of None \<Rightarrow> Some [] | Some names \<Rightarrow> Some names)"

fun copy_frames ::
  "copier \<Rightarrow> copier \<Rightarrow> string \<Rightarrow> string list \<Rightarrow> nat \<times> nat \<times> string list
     \<Rightarrow> nat \<times> nat \<times> string list" where
  \<comment> \<open>The inner loop; the state is \<open>frames_in_segment\<close>, \<open>total_frames_copied\<close> and the
      listing of the unified images directory.\<close>
  "copy_frames copy2 copy seg [] st = st"
| "copy_frames copy2 copy seg (frame_file # rest) (frames_in_segment, total_frames_copied, images) =
     (let new_frame_name = seg @ ''_'' @ frame_file
      in if copy2 seg frame_file
         then copy_frames copy2 copy seg rest
                (frames_in_segment + 1, total_frames_copied + 1, List.insert new_frame_name images)
         else if copy seg frame_file
         then copy_frames copy2 copy seg rest
                (frames_in_segment + 1, total_frames_copied + 1, List.insert new_frame_name images)
         else copy_frames copy2 copy seg rest (frames_in_segment, total_frames_copied, images))"

definition load_metadata ::
  "copier \<Rightarrow> string \<Rightarrow> entry \<Rightarrow> string list \<Rightarrow> error + string option \<times> string list" where
  \<comment> \<open>The block \<open>if metadata_file.exists()\<close>: \<open>segment_metadata\<close> (\<open>None\<close> for the empty
      default) and the listing of the unified metadata directory, or the exception raised
      by \<open>json.load\<close> or by \<open>shutil.copy2\<close>.\<close>
  "load_metadata copy2 seg folder metas =
     (case metadata_json folder of
        None \<Rightarrow> Inr (None, metas)
      | Some Malformed \<Rightarrow> Inl JSONDecodeError
      | Some (Wellformed segment_metadata) \<Rightarrow>
          if copy2 seg ''metadata.json''
          then Inr (Some segment_metadata, List.insert (seg @ ''_metadata.json'') metas)
          else Inl CopyError)"

fun process_folders ::
  "copier \<Rightarrow> copier \<Rightarrow> (string \<times> entry) list
     \<Rightarrow> nat \<times> string list \<times> string list \<times> segment_info list
     \<Rightarrow> error option \<times> nat \<times> string list \<times> string list \<times> segment_info list" where
  \<comment> \<open>The outer loop; the state is \<open>total_frames_copied\<close>, the listings of the unified
      images and metadata directories, and the \<open>segments\<close> list of the summary. The result
      carries the exception that ended the loop, if one did, and the state reached.\<close>
  "process_folders copy2 copy [] st = (None, st)"
| "process_folders copy2 copy ((seg, folder) # rest) (total_frames_copied, images, metas, infos) =
     (let frame_files = sort (glob (files folder) ''frame_'' ''.jpg'')
      in case load_metadata copy2 seg folder metas of
           Inl e \<Rightarrow> (Some e, total_frames_copied, images, metas, infos)
         | Inr (segment_metadata, metas') \<Rightarrow>
             let (frames_in_segment, total', images') =
                    copy_frames copy2 copy seg frame_files (0, total_frames_copied, images);
                 info = \<lparr>segment_name = seg, frames_count = frames_in_segment,
                         metadata = segment_metadata\<rparr>
             in process_folders copy2 copy rest (total', images', metas', infos @ [info]))"

definition create_unified_dataset ::
  "copier \<Rightarrow> copier \<Rightarrow> project_fs \<Rightarrow> (error + dataset_summary) \<times> project_fs" where
  "create_unified_dataset copy2 copy fs =
     (case frames_dir fs of
        None \<Rightarrow> (Inl NoExtractedFrames, fs)
      | Some listing \<Rightarrow>
          if listing = [] then (Inl NoExtractedFrames, fs)
          else
            let images0 = mkdir_exist_ok (dataset_images_dir fs);
                metas0 = mkdir_exist_ok (dataset_metadata_dir fs);
                fs1 = fs\<lparr>unified_dataset_dir := True,
                        dataset_images_dir := images0,
                        dataset_metadata_dir := metas0\<rparr>;
                segment_folders = sort_key fst (filter (\<lambda>f. is_dir (snd f)) listing)
            in if segment_folders = [] then (Inl NoSegmentFolders, fs1)
               else
                 let (raised, total_frames_copied, images, metas, infos) =
                        process_folders copy2 copy segment_folders
                          (0, case_option [] id images0, case_option [] id metas0, []);
                     summary = \<lparr>summary_total_frames = total_frames_copied,
                                summary_total_segments = length segment_folders,
                                summary_segments = infos\<rparr>
                 in case raised of
                      Some e \<Rightarrow>
                        (Inl e, fs1\<lparr>dataset_images_dir := Some images,
                                   dataset_metadata_dir := Some metas\<rparr>)
                    | None \<Rightarrow>
                        (Inr summary,
                         fs1\<lparr>dataset_images_dir := Some images,
                             dataset_metadata_dir := Some metas,
                             summary_file := Some summary,
                             frame_list_file := Some (sort (glob images [] ''.jpg''))\<rparr>))"

subsection \<open>The specification's wording, and example inputs\<close>

text \<open>
  The seek operations as the specification words them: a rounded frame position, clamped
  to the valid indices, honoured only while playback is stopped. \<open>round\<close> is rounding to
  the nearest integer; the examples below stay away from ties.
\<close>

definition clamp_index :: "int \<Rightarrow> int \<Rightarrow> int" where
  "clamp_index frame_count i = max 0 (min (frame_count - 1) i)"

definition seek_absolute_fraction_spec :: "rat \<Rightarrow> annotator \<Rightarrow> annotator" where
  "seek_absolute_fraction_spec p s =
     (if is_playing s then s
      else s\<lparr>current_frame :=
               clamp_index (total_frames s) (round (p * of_int (total_frames s)))\<rparr>)"


text \<open>The state after a load: outcome without notice, frame 0, paused, empty ledger.\<close>

definition playback_reset :: "unit outcome \<Rightarrow> bool" where
  "playback_reset r =
     (fst r = Inr () \<and> current_frame (snd r) = 0 \<and> \<not> is_playing (snd r) \<and>
      segments (snd r) = [] \<and> temp_start_time (snd r) = None)"

text \<open>
  The frame numbering as the specification words it, four decimal digits, zero-padded;
  and the numbering with at least four digits, which agrees with it up to 9999.
\<close>

definition four_digits :: "nat \<Rightarrow> string" where
  "four_digits n = [digit_char (n div 1000), digit_char (n div 100 mod 10),
                    digit_char (n div 10 mod 10), digit_char (n mod 10)]"

definition four_or_more_digits :: "nat \<Rightarrow> string" where
  "four_or_more_digits n = (if n < 10000 then four_digits n else str_nat n)"

text \<open>
  What a unification run copies, read off the input alone: the frames of a folder whose
  copy succeeds at the first or at the second attempt, in sorted order; the names these
  get in the unified images directory, \<open><folder>_<frame>\<close>; and the entry of each
  folder in the summary.
\<close>

definition copied_from :: "copier \<Rightarrow> copier \<Rightarrow> string \<Rightarrow> entry \<Rightarrow> string list" where
  "copied_from copy2 copy seg folder =
     filter (\<lambda>f. copy2 seg f \<or> copy seg f) (sort (glob (files folder) ''frame_'' ''.jpg''))"

definition unified_names :: "copier \<Rightarrow> copier \<Rightarrow> (string \<times> entry) list \<Rightarrow> string list" where
  "unified_names copy2 copy folders =
     concat (map (\<lambda>(seg, folder). map (\<lambda>f. seg @ ''_'' @ f) (copied_from copy2 copy seg folder))
                 folders)"

definition parsed_metadata :: "entry \<Rightarrow> string option" where
  "parsed_metadata folder =
     (case metadata_json folder of Some (Wellformed v) \<Rightarrow> Some v | _ \<Rightarrow> None)"

definition segment_infos :: "copier \<Rightarrow> copier \<Rightarrow> (string \<times> entry) list \<Rightarrow> segment_info list" where
  "segment_infos copy2 copy folders =
     map (\<lambda>(seg, folder). \<lparr>segment_name = seg,
                            frames_count = length (copied_from copy2 copy seg folder),
                            metadata = parsed_metadata folder\<rparr>) folders"

text \<open>
  The runs that reach the end: every \<open>metadata.json\<close> among the folders parses and is
  copied.
\<close>

definition metadata_ok :: "copier \<Rightarrow> (string \<times> entry) list \<Rightarrow> bool" where
  "metadata_ok copy2 folders =
     list_all (\<lambda>(seg, folder). case metadata_json folder of
                                    None \<Rightarrow> True
                                  | Some Malformed \<Rightarrow> False
                                  | Some (Wellformed v) \<Rightarrow> copy2 seg ''metadata.json'')
              folders"

text \<open>
  A session on the first of two videos, ten seconds long at 30 frames per second, stopped
  at frame 90, with one segment in the ledger and a start marked at second 1.
\<close>

definition demo :: annotator where
  "demo = \<lparr>video_files = [''a.mp4'', ''b.mp4''], current_video_index = 0,
            current_video_path = Some ''a.mp4'', cap = Some ''a.mp4'',
            is_playing = False, current_frame = 90, total_frames = 300, fps = 30,
            video_duration = 10, segments = [(5, 6)], temp_start_time = Some 1\<rparr>"

definition demo_opener :: opener where
  "demo_opener path =
     (if path = ''a.mp4'' then Some (300, 30)
      else if path = ''b.mp4'' then Some (120, 24)
      else None)"

text \<open>A source of 200 frames at 30 frames per second, each frame standing for its index.\<close>

definition demo_source :: "nat video" where
  "demo_source = \<lparr>v_fps = 30, v_frames = [0..<200]\<rparr>"

text \<open>
  Copies that never fail; a project whose frames directory holds one stray file and no
  folder; and a project with the two exported folders \<open>a_segment_1\<close> (three frames, with
  metadata) and \<open>b_segment_1\<close> (two frames), listed in directory order.
\<close>

definition always_ok :: copier where
  "always_ok seg frame_file = True"

definition stray_file_fs :: project_fs where
  "stray_file_fs =
     \<lparr>frames_dir = Some [(''notes.txt'', RegularFile)],
      unified_dataset_dir = False, dataset_images_dir = None, dataset_metadata_dir = None,
      summary_file = None, frame_list_file = None\<rparr>"

definition two_folders_fs :: project_fs where
  "two_folders_fs =
     \<lparr>frames_dir = Some
        [(''b_segment_1'', Folder [''frame_0002.jpg'', ''frame_0001.jpg''] None),
         (''a_segment_1'',
            Folder [''frame_0001.jpg'', ''frame_0002.jpg'', ''frame_0003.jpg''] (Some (Wellformed ''{}'')))],
      unified_dataset_dir = False, dataset_images_dir = None, dataset_metadata_dir = None,
      summary_file = None, frame_list_file = None\<rparr>"

text \<open>The same project, with a \<open>metadata.json\<close> in \<open>b_segment_1\<close> that does not parse.\<close>

definition bad_metadata_fs :: project_fs where
  "bad_metadata_fs =
     \<lparr>frames_dir = Some
        [(''b_segment_1'', Folder [''frame_0002.jpg'', ''frame_0001.jpg''] (Some Malformed)),
         (''a_segment_1'',
            Folder [''frame_0001.jpg'', ''frame_0002.jpg'', ''frame_0003.jpg'']
              (Some (Wellformed ''{}'')))],
      unified_dataset_dir = False, dataset_images_dir = None, dataset_metadata_dir = None,
      summary_file = None, frame_list_file = None\<rparr>"

section \<open>Numerics and formatting\<close>

lemma py_int_nonneg: "0 \<le> x \<Longrightarrow> py_int x = \<lfloor>x\<rfloor>"
  by (simp add: py_int_def)

lemma floor_rat_numeral_div:
  "\<lfloor>(numeral a / numeral b :: rat)\<rfloor> = numeral a div numeral b"
  using floor_divide_of_int_eq [of "numeral a" "numeral b", where ?'a = rat] by simp

lemma str_nat_small: "n < 10 \<Longrightarrow> str_nat n = [digit_char n]"
  by (simp add: str_nat.simps)

lemma str_nat_step: "10 \<le> n \<Longrightarrow> str_nat n = str_nat (n div 10) @ [digit_char (n mod 10)]"
  by (subst str_nat.simps) simp

lemma length_str_nat_pos: "0 < length (str_nat n)"
  by (subst str_nat.simps) simp

lemma length_str_nat_ge2: "10 \<le> n \<Longrightarrow> 2 \<le> length (str_nat n)"
  using length_str_nat_pos [of "n div 10"] by (simp add: str_nat_step Suc_le_eq)

lemma format_d_two_digits: "format_d 2 (int n) = two_digits n"
proof (cases "n < 10")
  case True
  then show ?thesis by (simp add: format_d_def two_digits_def zfill_def str_nat_small)
next
  case False
  then have "2 \<le> length (str_nat n)" by (simp add: length_str_nat_ge2)
  with False show ?thesis by (simp add: format_d_def two_digits_def zfill_def)
qed

lemma format_d_four_digits:
  assumes "n < 10000"
  shows "format_d 4 (int n) = four_digits n"
proof -
  have z: "digit_char 0 = CHR ''0''" by (simp add: digit_char_def)
  have r [simp]: "replicate 3 c = [c, c, c]" "replicate 2 c = [c, c]" for c :: char
    by (simp_all add: numeral_3_eq_3 numeral_2_eq_2)
  consider "n < 10" | "10 \<le> n" "n < 100" | "100 \<le> n" "n < 1000" | "1000 \<le> n"
    by linarith
  then show ?thesis
  proof cases
    case 1
    then show ?thesis
      by (simp add: format_d_def zfill_def four_digits_def str_nat_small z)
  next
    case 2
    then have "str_nat n = [digit_char (n div 10), digit_char (n mod 10)]"
      by (simp add: str_nat_step str_nat_small)
    with 2 show ?thesis
      by (simp add: format_d_def zfill_def four_digits_def z)
  next
    case 3
    then have "10 \<le> n div 10" "n div 10 < 100" by simp_all
    with 3 have "str_nat n = [digit_char (n div 10 div 10), digit_char (n div 10 mod 10), digit_char (n mod 10)]"
      by (simp add: str_nat_step str_nat_small)
    with 3 show ?thesis
      by (simp add: format_d_def zfill_def four_digits_def z div_mult2_eq[symmetric])
  next
    case 4
    with assms have a: "10 \<le> n div 10" "100 \<le> n div 10" "n div 10 < 1000" "10 \<le> n div 10 div 10" "n div 10 div 10 < 100" "n div 10 div 10 div 10 < 10"
      by simp_all
    with 4 have "str_nat n = [digit_char (n div 10 div 10 div 10), digit_char (n div 10 div 10 mod 10), digit_char (n div 10 mod 10), digit_char (n mod 10)]"
      by (simp add: str_nat_step str_nat_small)
    with 4 show ?thesis
      by (simp add: format_d_def zfill_def four_digits_def div_mult2_eq[symmetric])
  qed
qed

lemma int_succ_le_next_60: "t + 1 \<le> (t div 60 + 1) * 60" for t :: int
  by presburger

lemma floor_div_60: "\<lfloor>s / 60\<rfloor> = \<lfloor>s\<rfloor> div 60" for s :: rat
proof (rule floor_unique)
  have lo: "of_int \<lfloor>s\<rfloor> \<le> s" by (rule of_int_floor_le)
  have hi: "s < of_int (\<lfloor>s\<rfloor> + 1)" using floor_correct [of s] by simp
  have "(\<lfloor>s\<rfloor> div 60) * 60 \<le> \<lfloor>s\<rfloor>" by simp
  then have "(of_int ((\<lfloor>s\<rfloor> div 60) * 60) :: rat) \<le> of_int \<lfloor>s\<rfloor>"
    by (simp only: of_int_le_iff)
  from this lo have "(of_int ((\<lfloor>s\<rfloor> div 60) * 60) :: rat) \<le> s" by (rule order_trans)
  then have "(of_int (\<lfloor>s\<rfloor> div 60) :: rat) * 60 \<le> s" by simp
  then show "of_int (\<lfloor>s\<rfloor> div 60) \<le> s / 60" by (simp add: pos_le_divide_eq)
  have "\<lfloor>s\<rfloor> + 1 \<le> (\<lfloor>s\<rfloor> div 60 + 1) * 60" by (rule int_succ_le_next_60)
  then have "(of_int (\<lfloor>s\<rfloor> + 1) :: rat) \<le> of_int ((\<lfloor>s\<rfloor> div 60 + 1) * 60)"
    by (simp only: of_int_le_iff)
  with hi have "s < of_int ((\<lfloor>s\<rfloor> div 60 + 1) * 60)" by (rule less_le_trans)
  then have "s < (of_int (\<lfloor>s\<rfloor> div 60) + 1) * 60" by simp
  then show "s / 60 < of_int (\<lfloor>s\<rfloor> div 60) + 1" by (simp add: pos_divide_less_eq)
qed

lemma format_time_refines:
  assumes "0 \<le> s"
  shows "format_time s = format_time_spec s"
proof -
  let ?t = "\<lfloor>s\<rfloor>"
  from assms have t: "0 \<le> ?t" by simp
  have m: "py_int (py_floordiv s 60) = ?t div 60"
    using t by (simp add: py_floordiv_def py_int_def floor_div_60 pos_imp_zdiv_nonneg_iff)
  have "py_mod s 60 = s - of_int (60 * (?t div 60))"
    by (simp add: py_mod_def floor_div_60)
  then have "\<lfloor>py_mod s 60\<rfloor> = ?t - 60 * (?t div 60)"
    by (simp only: floor_diff_of_int)
  then have fl: "\<lfloor>py_mod s 60\<rfloor> = ?t mod 60"
    by (simp add: minus_mult_div_eq_mod)
  then have "0 \<le> \<lfloor>py_mod s 60\<rfloor>" by simp
  then have "0 \<le> py_mod s 60" by (simp only: zero_le_floor)
  with fl have sec: "py_int (py_mod s 60) = ?t mod 60" by (simp add: py_int_def)
  have a: "?t div 60 = int (nat ?t div 60)" "?t mod 60 = int (nat ?t mod 60)"
    using t by (simp_all add: zdiv_int zmod_int)
  show ?thesis
    unfolding format_time_def format_time_spec_def Let_def m sec
    by (simp only: a format_d_two_digits)
qed

lemma pow2_pos: "0 < pow2 k"
  by (simp add: pow2_def)

lemma round_half_even_nonneg: "0 \<le> x \<Longrightarrow> 0 \<le> round_half_even x"
proof -
  assume "0 \<le> x"
  then have "0 \<le> \<lfloor>x\<rfloor>" by simp
  then show ?thesis by (simp add: round_half_even_def Let_def)
qed

lemma round_double_nonneg: "0 \<le> x \<Longrightarrow> 0 \<le> round_double x"
proof (cases "x = 0")
  case True
  then show ?thesis by (simp add: round_double_def)
next
  case False
  assume "0 \<le> x"
  let ?q = "binade \<bar>x\<bar> - 52"
  from \<open>0 \<le> x\<close> have "0 \<le> x / pow2 ?q"
    using pow2_pos [of ?q] by (simp add: divide_nonneg_pos)
  then have "0 \<le> round_half_even (x / pow2 ?q)" by (rule round_half_even_nonneg)
  then have "0 \<le> (of_int (round_half_even (x / pow2 ?q)) :: rat) * pow2 ?q"
    using pow2_pos [of ?q] by (simp add: mult_nonneg_nonneg)
  with False show ?thesis by (simp add: round_double_def Let_def)
qed

lemma fmul_nonneg: "0 \<le> x \<Longrightarrow> 0 \<le> y \<Longrightarrow> 0 \<le> fmul x y"
  by (simp add: fmul_def round_double_nonneg mult_nonneg_nonneg)

lemma fdiv_nonneg: "0 \<le> x \<Longrightarrow> 0 \<le> y \<Longrightarrow> 0 \<le> fdiv x y"
  by (simp add: fdiv_def round_double_nonneg divide_nonneg_nonneg)

lemma pow2_powi: "pow2 k = 2 powi k"
  by (simp add: pow2_def power_int_def inverse_eq_divide power_one_over)

lemma bit_length_bounds: "0 < n \<Longrightarrow> 2 ^ (bit_length n - 1) \<le> n \<and> n < 2 ^ bit_length n"
proof (induction n rule: bit_length.induct)
  case (1 n)
  show ?case
  proof (cases "n div 2 = 0")
    case True
    with "1.prems" have "n = 1" by (simp add: div_eq_0_iff) 
    then show ?thesis by (simp add: bit_length.simps)
  next
    case False
    then have pos: "0 < n div 2" by simp
    from "1.prems" have "n \<noteq> 0" by simp
    from "1.IH" [OF this pos]
    have ih: "2 ^ (bit_length (n div 2) - 1) \<le> n div 2" "n div 2 < 2 ^ bit_length (n div 2)"
      by simp_all
    have b: "bit_length n = Suc (bit_length (n div 2))"
      using \<open>n \<noteq> 0\<close> by (subst bit_length.simps) simp
    have "0 < bit_length (n div 2)"
      using pos by (subst bit_length.simps) simp
    then have "(2::nat) ^ bit_length (n div 2) = 2 * 2 ^ (bit_length (n div 2) - 1)"
      by (cases "bit_length (n div 2)") simp_all
    with ih(1) have lo: "2 ^ bit_length (n div 2) \<le> n" by linarith
    from ih(2) have hi: "n < 2 * 2 ^ bit_length (n div 2)" by linarith
    from lo hi show ?thesis by (simp add: b)
  qed
qed

lemma binade_bounds:
  assumes "0 < x"
  shows "pow2 (binade x) \<le> x" and "x < pow2 (binade x + 1)"
proof -
  have "pow2 (binade x) \<le> x \<and> x < pow2 (binade x + 1)"
  proof (cases "1 \<le> x")
    case True
    define N where "N = nat \<lfloor>x\<rfloor>"
    define b where "b = bit_length N"
    from True have fl: "1 \<le> \<lfloor>x\<rfloor>" by simp
    then have N: "0 < N" "of_nat N = (of_int \<lfloor>x\<rfloor> :: rat)" by (simp_all add: N_def)
    from bit_length_bounds [OF N(1)] have bb: "2 ^ (b - 1) \<le> N" "N < 2 ^ b"
      by (simp_all add: b_def)
    from N(1) have bpos: "0 < b" unfolding b_def by (subst bit_length.simps) simp
    have e: "binade x = int b - 1" using True by (simp add: binade_def N_def b_def)
    from bpos have p1: "pow2 (int b - 1) = 2 ^ (b - 1)"
      by (simp add: pow2_def nat_diff_distrib')
    have p2: "pow2 (binade x + 1) = 2 ^ b" by (simp add: e pow2_def)
    from bb(1) have "(of_nat (2 ^ (b - 1)) :: rat) \<le> of_nat N" by (simp only: of_nat_le_iff)
    then have "(2 ^ (b - 1) :: rat) \<le> of_int \<lfloor>x\<rfloor>" by (simp add: N(2))
    also have "\<dots> \<le> x" by (rule of_int_floor_le)
    finally have lo: "pow2 (binade x) \<le> x" by (simp add: e p1)
    from bb(2) have "N + 1 \<le> 2 ^ b" by simp
    then have "(of_nat (N + 1) :: rat) \<le> of_nat (2 ^ b)" by (simp only: of_nat_le_iff)
    then have "(of_int \<lfloor>x\<rfloor> :: rat) + 1 \<le> 2 ^ b" by (simp add: N(2))
    moreover have "x < of_int \<lfloor>x\<rfloor> + 1" by linarith
    ultimately have "x < 2 ^ b" by (rule less_le_trans [rotated])
    then have hi: "x < pow2 (binade x + 1)" by (simp only: p2)
    from lo hi show ?thesis ..
  next
    case False
    with assms have x1: "x < 1" by simp
    define c where "c = \<lceil>1 / x\<rceil>"
    define N where "N = nat (c - 1)"
    define b where "b = bit_length N"
    from assms x1 have "1 < 1 / x" by simp
    then have c2: "2 \<le> c" unfolding c_def by linarith
    have cl: "1 / x \<le> of_int c" unfolding c_def by (rule le_of_int_ceiling)
    have cu: "of_int c - 1 < 1 / x" unfolding c_def by linarith
    from c2 have N: "0 < N" "(of_nat N :: rat) = of_int c - 1" by (simp_all add: N_def)
    from bit_length_bounds [OF N(1)] have bb: "2 ^ (b - 1) \<le> N" "N < 2 ^ b"
      by (simp_all add: b_def)
    from N(1) have bpos: "0 < b" unfolding b_def by (subst bit_length.simps) simp
    have e: "binade x = - int b" using False by (simp add: binade_def N_def b_def c_def)
    from bpos have p1: "pow2 (binade x) = 1 / 2 ^ b" by (simp add: e pow2_def)
    from bpos have p2: "pow2 (binade x + 1) = 1 / 2 ^ (b - 1)"
      by (cases b) (simp_all add: e pow2_def)
    from bb(2) have "N + 1 \<le> 2 ^ b" by simp
    then have "(of_nat (N + 1) :: rat) \<le> of_nat (2 ^ b)" by (simp only: of_nat_le_iff)
    then have "(of_int c :: rat) \<le> 2 ^ b" by (simp add: N(2))
    with cl have "1 / x \<le> 2 ^ b" by (rule order_trans)
    with assms have "1 \<le> 2 ^ b * x" by (simp add: pos_divide_le_eq mult.commute)
    then have "1 / 2 ^ b \<le> x" by (simp add: pos_divide_le_eq mult.commute)
    then have lo: "pow2 (binade x) \<le> x" by (simp only: p1)
    from bb(1) have "(of_nat (2 ^ (b - 1)) :: rat) \<le> of_nat N" by (simp only: of_nat_le_iff)
    then have "(2 ^ (b - 1) :: rat) \<le> of_int c - 1" by (simp add: N(2))
    from this cu have "(2 ^ (b - 1) :: rat) < 1 / x" by (rule le_less_trans)
    with assms have "2 ^ (b - 1) * x < 1" by (simp add: pos_less_divide_eq)
    then have "x < 1 / 2 ^ (b - 1)" by (simp add: pos_less_divide_eq mult.commute)
    then have hi: "x < pow2 (binade x + 1)" by (simp only: p2)
    from lo hi show ?thesis ..
  qed
  then show "pow2 (binade x) \<le> x" and "x < pow2 (binade x + 1)" by simp_all
qed


lemma pow2_mono: "a \<le> b \<Longrightarrow> pow2 a \<le> pow2 b"
  using power_int_increasing [of a b "2 :: rat"] by (simp add: pow2_powi)

lemma pow2_add: "pow2 (a + b) = pow2 a * pow2 b"
  by (simp add: pow2_powi power_int_add)

lemma pow2_numeral: "pow2 (numeral k) = 2 ^ numeral k" "pow2 0 = 1"
  by (simp_all add: pow2_def)

lemma pow2_neg_numeral: "pow2 (- numeral k) = 1 / 2 ^ numeral k"
  by (simp add: pow2_def)

lemma binade_less:
  assumes "0 < x" and "x < pow2 b"
  shows "binade x < b"
proof (rule ccontr)
  assume "\<not> binade x < b"
  then have "pow2 b \<le> pow2 (binade x)" by (simp add: pow2_mono)
  also have "\<dots> \<le> x" using assms(1) by (rule binade_bounds)
  finally show False using assms(2) by simp
qed

lemma round_half_even_upper: "of_int (round_half_even y) \<le> y + 1 / 2"
proof -
  define f where "f = \<lfloor>y\<rfloor>"
  have lo: "of_int f \<le> y" unfolding f_def by (rule of_int_floor_le)
  show ?thesis
    unfolding round_half_even_def Let_def f_def [symmetric]
    using lo by (auto simp: not_less)
qed

lemma round_half_even_of_int: "round_half_even (of_int k) = k"
  by (simp add: round_half_even_def)

lemma round_double_pos:
  assumes "0 < x"
  shows "round_double x = of_int (round_half_even (x / pow2 (binade x - 52))) * pow2 (binade x - 52)"
    and "2 ^ 52 \<le> x / pow2 (binade x - 52)"
    and "x / pow2 (binade x - 52) < 2 ^ 53"
proof -
  let ?q = "binade x - 52"
  from assms show "round_double x = of_int (round_half_even (x / pow2 ?q)) * pow2 ?q"
    by (simp add: round_double_def Let_def)
  have "pow2 (?q + 52) = pow2 ?q * 2 ^ 52" by (simp only: pow2_add pow2_numeral)
  then have a: "pow2 (binade x) = pow2 ?q * 2 ^ 52" by simp
  have "pow2 (?q + 53) = pow2 ?q * 2 ^ 53" by (simp only: pow2_add pow2_numeral)
  then have b: "pow2 (binade x + 1) = pow2 ?q * 2 ^ 53" by (simp add: add.commute)
  from binade_bounds(1) [OF assms] have "2 ^ 52 * pow2 ?q \<le> x" by (simp add: a mult.commute)
  then show "2 ^ 52 \<le> x / pow2 ?q" using pow2_pos [of ?q] by (simp add: pos_le_divide_eq)
  from binade_bounds(2) [OF assms] have "x < 2 ^ 53 * pow2 ?q" by (simp add: b mult.commute)
  then show "x / pow2 ?q < 2 ^ 53" using pow2_pos [of ?q] by (simp add: pos_divide_less_eq)
qed

lemma round_double_upper:
  assumes "0 < x"
  shows "round_double x \<le> x * (1 + 1 / 2 ^ 53)"
proof -
  define p where "p = pow2 (binade x - 52)"
  define y where "y = x / p"
  define m where "m = round_half_even y"
  have p: "0 < p" unfolding p_def by (rule pow2_pos)
  have r: "round_double x = of_int m * p"
    using round_double_pos(1) [OF assms] by (simp add: m_def y_def p_def)
  have y52: "2 ^ 52 \<le> y" using round_double_pos(2) [OF assms] by (simp add: y_def p_def)
  have "of_int m \<le> y + 1 / 2" unfolding m_def by (rule round_half_even_upper)
  also from y52 have "1 / 2 \<le> y / 2 ^ 53" by simp
  finally have "of_int m \<le> y * (1 + 1 / 2 ^ 53)" by (simp add: algebra_simps)
  then have "of_int m * p \<le> y * (1 + 1 / 2 ^ 53) * p" using p by (simp only: mult_le_cancel_right_pos)
  also have "y * (1 + 1 / 2 ^ 53) * p = x * (1 + 1 / 2 ^ 53)" using p by (simp add: y_def)
  finally show ?thesis by (simp only: r)
qed


lemma round_double_below_one:
  assumes "0 < x" and "x < 1" and "round_double x < 1"
  shows "round_double x \<le> 1 - 1 / 2 ^ 53"
proof -
  define q where "q = binade x - 52"
  define y where "y = x / pow2 q"
  define m where "m = round_half_even y"
  have r: "round_double x = of_int m * pow2 q"
    using round_double_pos(1) [OF assms(1)] by (simp add: m_def y_def q_def)
  have y53: "y < 2 ^ 53" using round_double_pos(3) [OF assms(1)] by (simp add: y_def q_def)
  from assms(2) have "x < pow2 0" by (simp add: pow2_numeral)
  with assms(1) have "binade x < 0" by (rule binade_less)
  then have q53: "q \<le> - 53" by (simp add: q_def)
  show ?thesis
  proof (cases "q = - 53")
    case True
    then have p: "pow2 q = 1 / 2 ^ 53" by (simp add: pow2_neg_numeral)
    from assms(3) have "of_int m < (2 ^ 53 :: rat)" by (simp add: r p)
    then have "of_int m < (of_int (2 ^ 53) :: rat)" by simp
    then have "m < 2 ^ 53" by (simp only: of_int_less_iff)
    then have "m \<le> 2 ^ 53 - 1" by simp
    then have "(of_int m :: rat) \<le> of_int (2 ^ 53 - 1)" by (simp only: of_int_le_iff)
    then show ?thesis by (simp add: r p)
  next
    case False
    with q53 have "q \<le> - 54" by simp
    then have "pow2 q \<le> pow2 (- 54)" by (rule pow2_mono)
    then have p: "pow2 q \<le> 1 / 2 ^ 54" by (simp add: pow2_neg_numeral)
    have "of_int m \<le> y + 1 / 2" unfolding m_def by (rule round_half_even_upper)
    with y53 have "of_int m < (2 ^ 53 + 1 :: rat)" by linarith
    then have "of_int m < (of_int (2 ^ 53 + 1) :: rat)" by simp
    then have "m < 2 ^ 53 + 1" by (simp only: of_int_less_iff)
    then have "m \<le> 2 ^ 53" by simp
    then have m: "(of_int m :: rat) \<le> 2 ^ 53" using of_int_le_iff [of m "2 ^ 53", where ?'a = rat] by simp
    have "of_int m * pow2 q \<le> 2 ^ 53 * pow2 q"
      using m pow2_pos [of q] by (simp only: mult_le_cancel_right_pos)
    also have "\<dots> \<le> 2 ^ 53 * (1 / 2 ^ 54)" using p by simp
    also have "\<dots> \<le> 1 - 1 / 2 ^ 53" by simp
    finally show ?thesis by (simp only: r)
  qed
qed

lemma double_below_100:
  assumes "round_double v = v" and "0 \<le> v" and "v < 100"
  shows "v \<le> 100 - 1 / 2 ^ 46"
proof (cases "v = 0")
  case True
  then show ?thesis by simp
next
  case False
  with assms(2) have pos: "0 < v" by simp
  define q where "q = binade v - 52"
  define m where "m = round_half_even (v / pow2 q)"
  have r: "v = of_int m * pow2 q"
    using round_double_pos(1) [OF pos] assms(1) by (simp add: m_def q_def)
  from assms(3) have "v < pow2 7" by (simp add: pow2_numeral)
  with pos have b7: "binade v < 7" by (rule binade_less)
  show ?thesis
  proof (cases "binade v = 6")
    case True
    then have p: "pow2 q = 1 / 2 ^ 46" by (simp add: q_def pow2_neg_numeral)
    from assms(3) have "of_int m < (100 * 2 ^ 46 :: rat)" by (subst (asm) r) (simp add: p)
    then have "of_int m < (of_int (100 * 2 ^ 46) :: rat)" by simp
    then have "m < 100 * 2 ^ 46" by (simp only: of_int_less_iff)
    then have "m \<le> 100 * 2 ^ 46 - 1" by simp
    then have "(of_int m :: rat) \<le> of_int (100 * 2 ^ 46 - 1)" by (simp only: of_int_le_iff)
    then show ?thesis by (subst r) (simp add: p)
  next
    case False
    with b7 have "binade v + 1 \<le> 6" by simp
    then have "pow2 (binade v + 1) \<le> pow2 6" by (rule pow2_mono)
    with binade_bounds(2) [OF pos] have "v < pow2 6" by simp
    then show ?thesis by (simp add: pow2_numeral)
  qed
qed

lemma round_double_of_int:
  assumes "0 < n" and "n < 2 ^ 53"
  shows "round_double (of_int n) = of_int n"
proof -
  define q where "q = binade (of_int n) - 52"
  from assms(1) have pos: "0 < (of_int n :: rat)" by simp
  from assms(2) have "(of_int n :: rat) < of_int (2 ^ 53)" by (simp only: of_int_less_iff)
  then have "(of_int n :: rat) < pow2 53" by (simp add: pow2_numeral)
  with pos have "binade (of_int n) < 53" by (rule binade_less)
  then have q0: "q \<le> 0" by (simp add: q_def)
  define k where "k = nat (- q)"
  from q0 have p: "pow2 q = 1 / 2 ^ k" by (auto simp: pow2_def k_def)
  have "of_int n / pow2 q = (of_int (n * 2 ^ k) :: rat)" by (simp add: p)
  then have "round_half_even (of_int n / pow2 q) = n * 2 ^ k"
    by (simp only: round_half_even_of_int)
  with round_double_pos(1) [OF pos] show ?thesis by (simp add: q_def [symmetric] p)
qed

lemma scrub_product_below:
  assumes "round_double val = val" and "0 \<le> val" and "val < 100"
    and "0 < n" and "n < 2 ^ 53"
  shows "fmul (fdiv val 100) (of_int n) < of_int n"
proof -
  define u :: rat where "u = 1 / 2 ^ 53"
  have below: "round_double w \<le> 1 - u" if "0 \<le> w" "w \<le> 1 - u" for w
  proof (cases "w = 0")
    case True
    then show ?thesis by (simp add: round_double_def u_def)
  next
    case False
    with that have pos: "0 < w" by simp
    from that have w1: "w < 1" by (simp add: u_def)
    have "round_double w \<le> w * (1 + u)"
      using round_double_upper [OF pos] by (simp add: u_def)
    also have "\<dots> \<le> (1 - u) * (1 + u)" using that by (simp add: u_def)
    also have "\<dots> < 1" by (simp add: u_def)
    finally have "round_double w < 1" .
    with pos w1 show ?thesis unfolding u_def by (rule round_double_below_one)
  qed
  have r100: "round_double 100 = 100"
    using round_double_of_int [of 100] by simp
  have rn: "round_double (of_int n) = of_int n" using assms(4,5) by (rule round_double_of_int)
  define z where "z = val / 100"
  have z0: "0 \<le> z" using assms(2) by (simp add: z_def)
  from double_below_100 [OF assms(1-3)] have "z \<le> (100 - 1 / 2 ^ 46) / 100"
    by (simp add: z_def)
  define qd where "qd = round_double z"
  have qd0: "0 \<le> qd" unfolding qd_def using z0 by (rule round_double_nonneg)
  have qd1: "qd \<le> 1 - u"
  proof (cases "z = 0")
    case True
    then show ?thesis by (simp add: qd_def round_double_def u_def)
  next
    case False
    with z0 have pos: "0 < z" by simp
    from \<open>z \<le> (100 - 1 / 2 ^ 46) / 100\<close> have z1: "z < 1" by simp
    have "round_double z \<le> z * (1 + u)"
      using round_double_upper [OF pos] by (simp add: u_def)
    also have "\<dots> \<le> (100 - 1 / 2 ^ 46) / 100 * (1 + u)"
      using \<open>z \<le> (100 - 1 / 2 ^ 46) / 100\<close> by (simp add: u_def)
    also have "\<dots> < 1" by (simp add: u_def)
    finally have "round_double z < 1" .
    with pos z1 show ?thesis unfolding u_def qd_def by (rule round_double_below_one)
  qed
  define w where "w = round_double qd"
  have w0: "0 \<le> w" unfolding w_def using qd0 by (rule round_double_nonneg)
  have w1: "w \<le> 1 - u" unfolding w_def using qd0 qd1 by (rule below)
  have f: "fmul (fdiv val 100) (of_int n) = round_double (w * of_int n)"
    by (simp add: fmul_def fdiv_def assms(1) r100 rn w_def qd_def z_def)
  from assms(4) have npos: "0 < (of_int n :: rat)" by simp
  show ?thesis
  proof (cases "w = 0")
    case True
    with npos show ?thesis by (simp add: f round_double_def)
  next
    case False
    with w0 npos have pos: "0 < w * of_int n" by simp
    have "round_double (w * of_int n) \<le> w * of_int n * (1 + u)"
      using round_double_upper [OF pos] by (simp add: u_def)
    also have "\<dots> = (w * (1 + u)) * of_int n" by simp
    also have "w * (1 + u) \<le> (1 - u) * (1 + u)" using w1 by (simp add: u_def)
    also have "(1 - u) * (1 + u) < 1" by (simp add: u_def)
    finally show ?thesis using npos by (simp add: f)
  qed
qed

lemma length_str_nat_ge4: "1000 \<le> n \<Longrightarrow> 4 \<le> length (str_nat n)"
proof -
  assume a: "1000 \<le> n"
  then have "10 \<le> n div 10 div 10" by simp
  then have "2 \<le> length (str_nat (n div 10 div 10))" by (rule length_str_nat_ge2)
  moreover from a have "str_nat n =
      str_nat (n div 10 div 10) @ [digit_char (n div 10 mod 10), digit_char (n mod 10)]"
    by (simp add: str_nat_step)
  ultimately show ?thesis by simp
qed

lemma format_d_four_or_more: "format_d 4 (int n) = four_or_more_digits n"
proof (cases "n < 10000")
  case True
  then show ?thesis by (simp add: four_or_more_digits_def format_d_four_digits)
next
  case False
  then have "4 \<le> length (str_nat n)" by (simp add: length_str_nat_ge4)
  with False show ?thesis by (simp add: four_or_more_digits_def format_d_def zfill_def)
qed

text \<open>
  C5. For every non-negative number of seconds, \<open>format_time\<close> gives the string the
  specification describes: the seconds truncated to an integer, split into minutes and
  seconds, each written with two digits (more when the minutes exceed 99). In particular
  0 gives 00:00, 65 gives 01:05 and 59.9 gives 00:59.
\<close>

theorem format_time_contract:
  "(0 \<le> s \<longrightarrow> format_time s = format_time_spec s) \<and>
   format_time 0 = ''00:00'' \<and> format_time 65 = ''01:05'' \<and> format_time (599 / 10) = ''00:59''"
proof (intro conjI impI)
  show "format_time 0 = ''00:00''" by code_simp
  show "format_time 65 = ''01:05''" by code_simp
  show "format_time (599 / 10) = ''00:59''" by code_simp
qed (rule format_time_refines)

theorem format_time_contract_witness:
  "format_time (3725 / 2) = format_time_spec (3725 / 2) \<and> format_time_spec (3725 / 2) = ''31:02''"
proof -
  have "format_time_spec (3725 / 2) = ''31:02''" by code_simp
  with format_time_contract [of "3725 / 2"] show ?thesis by simp
qed

section \<open>Segment ledger\<close>

text \<open>
  C1. \<open>mark_end\<close> shows the NoStartMarked notice when no start is pending and the
  InvalidRange notice when the current time is not after the pending start, leaving the
  whole state (ledger and pending mark included) as it was; otherwise it appends the pair
  of pending start and current time at the end of the ledger and clears the pending mark.
  The current time is the current frame divided by the frame rate whenever the frame rate
  is positive.
\<close>

theorem mark_end_outcomes:
  "(temp_start_time s = None \<longrightarrow> mark_end s = (Inl NoStartMarked, s)) \<and>
   (temp_start_time s = Some start \<and> current_time s \<le> start \<longrightarrow>
      mark_end s = (Inl InvalidRange, s)) \<and>
   (temp_start_time s = Some start \<and> start < current_time s \<longrightarrow>
      mark_end s = (Inr (), s\<lparr>segments := segments s @ [(start, current_time s)],
                                temp_start_time := None\<rparr>)) \<and>
   (0 < fps s \<longrightarrow> current_time s = of_int (current_frame s) / fps s)"
  by (simp add: mark_end_def current_time_def)

theorem mark_end_outcomes_witness:
  "mark_end (demo\<lparr>temp_start_time := None\<rparr>)
     = (Inl NoStartMarked, demo\<lparr>temp_start_time := None\<rparr>) \<and>
   mark_end (demo\<lparr>temp_start_time := Some 3\<rparr>)
     = (Inl InvalidRange, demo\<lparr>temp_start_time := Some 3\<rparr>) \<and>
   segments (snd (mark_end demo)) = [(5, 6), (1, 3)] \<and>
   temp_start_time (snd (mark_end demo)) = None"
  using mark_end_outcomes [of "demo\<lparr>temp_start_time := None\<rparr>" 0]
        mark_end_outcomes [of "demo\<lparr>temp_start_time := Some 3\<rparr>" 3]
        mark_end_outcomes [of demo 1]
  by (simp add: demo_def current_time_def)

text \<open>
  C8, as stated, fails: with an empty ledger and a start marked, \<open>clear_all_segments\<close>
  only reports that there is nothing to clear, and the pending mark stays.
\<close>

theorem clear_all_keeps_pending_counterexample:
  "segments (demo\<lparr>segments := []\<rparr>) = [] \<and>
   temp_start_time (demo\<lparr>segments := []\<rparr>) = Some 1 \<and>
   temp_start_time (snd (clear_all_segments (demo\<lparr>segments := []\<rparr>))) = Some 1"
  by (simp add: demo_def clear_all_segments_def)

text \<open>
  C8, amended. With a non-empty ledger \<open>clear_all_segments\<close> empties the ledger and
  clears the pending mark; with an empty ledger it reports that there is nothing to clear
  and changes nothing, a pending mark included.
\<close>

theorem clear_all_segments_outcomes:
  "(segments s \<noteq> [] \<longrightarrow>
      clear_all_segments s = (Inr (), s\<lparr>segments := [], temp_start_time := None\<rparr>)) \<and>
   (segments s = [] \<longrightarrow> clear_all_segments s = (Inl NoSegmentsToClear, s))"
  by (simp add: clear_all_segments_def)

theorem clear_all_segments_outcomes_witness:
  "segments (snd (clear_all_segments demo)) = [] \<and>
   temp_start_time (snd (clear_all_segments demo)) = None \<and>
   clear_all_segments (demo\<lparr>segments := []\<rparr>)
     = (Inl NoSegmentsToClear, demo\<lparr>segments := []\<rparr>)"
  using clear_all_segments_outcomes [of demo]
        clear_all_segments_outcomes [of "demo\<lparr>segments := []\<rparr>"]
  by (simp add: demo_def)

section \<open>Seeking\<close>

text \<open>
  C6, as stated, fails. The position is truncated, not rounded: at 60 percent of a
  three-frame video the code goes to frame 1 where rounding gives frame 2. The product is
  a double-precision one: at 29 percent of 100 frames it falls just below 29 and the code
  goes to frame 28. And the result is not clamped: at 100 percent the current frame
  equals the frame count.
\<close>

lemma demo_scrubs:
  "py_int (fmul (fdiv 60 100) 3) = 1"
  "py_int (fmul (fdiv 29 100) 100) = 28"
  "py_int (fmul (fdiv 100 100) 300) = 300"
  by code_simp+

theorem scrub_counterexample:
  "current_frame (on_progress_change 60 (demo\<lparr>total_frames := 3\<rparr>)) = 1 \<and>
   current_frame (seek_absolute_fraction_spec (60 / 100) (demo\<lparr>total_frames := 3\<rparr>)) = 2 \<and>
   current_frame (on_progress_change 29 (demo\<lparr>total_frames := 100\<rparr>)) = 28 \<and>
   current_frame (seek_absolute_fraction_spec (29 / 100) (demo\<lparr>total_frames := 100\<rparr>)) = 29 \<and>
   current_frame (on_progress_change 100 demo) = 300 \<and> total_frames demo = 300"
  by (simp add: on_progress_change_def seek_absolute_fraction_spec_def demo_def demo_scrubs
      clamp_index_def round_def floor_rat_numeral_div)

text \<open>
  C6, amended. While playback is stopped, a scrub to a position \<open>val\<close> of the scale (a
  double with \<open>0 \<le> val < 100\<close>) on a video that has frames sets the current frame to the
  double-precision value of \<open>val / 100 * frameCount\<close>, truncated, and changes nothing
  else; that index is at least 0 and below the frame count. While playback runs, a scrub
  changes nothing.
\<close>

theorem scrub_amended:
  "(\<not> is_playing s \<and> round_double val = val \<and> 0 \<le> val \<and> val < 100 \<and>
    0 < total_frames s \<and> total_frames s < 2 ^ 53 \<longrightarrow>
      on_progress_change val s =
        s\<lparr>current_frame := \<lfloor>fmul (fdiv val 100) (of_int (total_frames s))\<rfloor>\<rparr> \<and>
      0 \<le> current_frame (on_progress_change val s) \<and>
      current_frame (on_progress_change val s) < total_frames s) \<and>
   (is_playing s \<longrightarrow> on_progress_change val s = s)"
proof (intro conjI impI)
  assume a: "\<not> is_playing s \<and> round_double val = val \<and> 0 \<le> val \<and> val < 100 \<and>
    0 < total_frames s \<and> total_frames s < 2 ^ 53"
  define P where "P = fmul (fdiv val 100) (of_int (total_frames s))"
  from a have "0 \<le> fdiv val 100" by (simp add: fdiv_nonneg)
  with a have nn: "0 \<le> P" by (simp add: P_def fmul_nonneg)
  then have fl: "py_int P = \<lfloor>P\<rfloor>" by (rule py_int_nonneg)
  from a have below: "P < of_int (total_frames s)"
    unfolding P_def by (intro scrub_product_below) simp_all
  from a have eq: "on_progress_change val s = s\<lparr>current_frame := \<lfloor>P\<rfloor>\<rparr>"
    by (simp add: on_progress_change_def P_def [symmetric] fl)
  then show "on_progress_change val s =
        s\<lparr>current_frame := \<lfloor>fmul (fdiv val 100) (of_int (total_frames s))\<rfloor>\<rparr>"
    by (simp only: P_def)
  from nn show "0 \<le> current_frame (on_progress_change val s)" by (simp add: eq)
  from below show "current_frame (on_progress_change val s) < total_frames s"
    by (simp add: eq floor_less_iff)
next
  assume "is_playing s"
  then show "on_progress_change val s = s" by (simp add: on_progress_change_def)
qed

theorem scrub_amended_witness:
  "current_frame (on_progress_change 60 (demo\<lparr>total_frames := 3\<rparr>)) = 1 \<and>
   current_frame (on_progress_change 29 (demo\<lparr>total_frames := 100\<rparr>)) = 28 \<and>
   on_progress_change 60 (demo\<lparr>is_playing := True\<rparr>) = demo\<lparr>is_playing := True\<rparr>"
proof -
  have f: "\<lfloor>fmul (fdiv 60 100) 3\<rfloor> = 1" by code_simp
  have g: "\<lfloor>fmul (fdiv 29 100) 100\<rfloor> = 28" by code_simp
  have d: "round_double 60 = 60" "round_double 29 = 29"
    using round_double_of_int [of 60] round_double_of_int [of 29] by simp_all
  from scrub_amended [of "demo\<lparr>total_frames := 3\<rparr>" 60]
       scrub_amended [of "demo\<lparr>total_frames := 100\<rparr>" 29]
       scrub_amended [of "demo\<lparr>is_playing := True\<rparr>" 60]
  show ?thesis by (simp add: demo_def f g d)
qed




section \<open>Loading videos\<close>

lemma load_current_video_reset:
  assumes "i < length (video_files s)" and "current_video_index s = i"
    and "opener (video_files s ! i) \<noteq> None"
  shows "playback_reset (load_current_video opener s)"
  using assms
  by (auto simp: load_current_video_def playback_reset_def Let_def split: option.splits)

text \<open>
  C9. Every callback that loads a video (\<open>load_current_video\<close> itself, previous, next,
  reload of the folder) ends, when the video it selects opens, at frame 0, paused, with an
  empty ledger and no pending mark.
\<close>

theorem new_video_resets:
  "(current_video_index s < length (video_files s) \<and>
      opener (video_files s ! current_video_index s) \<noteq> None
      \<longrightarrow> playback_reset (load_current_video opener s)) \<and>
   (0 < current_video_index s \<and> current_video_index s - 1 < length (video_files s) \<and>
      opener (video_files s ! (current_video_index s - 1)) \<noteq> None
      \<longrightarrow> playback_reset (previous_video opener s)) \<and>
   (current_video_index s + 1 < length (video_files s) \<and>
      opener (video_files s ! (current_video_index s + 1)) \<noteq> None
      \<longrightarrow> playback_reset (next_video opener s)) \<and>
   (find_videos listing \<noteq> [] \<and> opener (sort (find_videos listing) ! 0) \<noteq> None
      \<longrightarrow> playback_reset (load_videos opener listing s))"
proof (intro conjI impI)
  assume "current_video_index s < length (video_files s) \<and>
      opener (video_files s ! current_video_index s) \<noteq> None"
  then show "playback_reset (load_current_video opener s)"
    using load_current_video_reset [of "current_video_index s" s opener] by blast
next
  assume a: "0 < current_video_index s \<and> current_video_index s - 1 < length (video_files s) \<and>
      opener (video_files s ! (current_video_index s - 1)) \<noteq> None"
  then have "video_files s \<noteq> []" by auto
  with a show "playback_reset (previous_video opener s)"
    using load_current_video_reset
      [of "current_video_index s - 1" "s\<lparr>current_video_index := current_video_index s - 1\<rparr>" opener]
    by (simp add: previous_video_def)
next
  assume a: "current_video_index s + 1 < length (video_files s) \<and>
      opener (video_files s ! (current_video_index s + 1)) \<noteq> None"
  then have "video_files s \<noteq> []" by auto
  with a show "playback_reset (next_video opener s)"
    using load_current_video_reset
      [of "current_video_index s + 1" "s\<lparr>current_video_index := current_video_index s + 1\<rparr>" opener]
    by (simp add: next_video_def)
next
  assume a: "find_videos listing \<noteq> [] \<and> opener (sort (find_videos listing) ! 0) \<noteq> None"
  then have "0 < length (sort (find_videos listing))"
    by (simp add: length_greater_0_conv [symmetric] del: length_greater_0_conv)
  with a show "playback_reset (load_videos opener listing s)"
    using load_current_video_reset
      [of 0 "s\<lparr>video_files := sort (find_videos listing), current_video_index := 0\<rparr>" opener]
    by (simp add: load_videos_def Let_def)
qed

lemma demo_found:
  "find_videos [''b.mp4'', ''.a.mp4'', ''a.mp4''] = [''b.mp4'', ''a.mp4'']"
  "sort [''b.mp4'', ''a.mp4''] = [''a.mp4'', ''b.mp4'']"
  by code_simp+

theorem new_video_resets_witness:
  "playback_reset (load_current_video demo_opener demo) \<and>
   playback_reset (previous_video demo_opener (demo\<lparr>current_video_index := 1\<rparr>)) \<and>
   playback_reset (next_video demo_opener demo) \<and>
   playback_reset (load_videos demo_opener [''b.mp4'', ''.a.mp4'', ''a.mp4''] demo)"
  using new_video_resets [of demo demo_opener "[''b.mp4'', ''.a.mp4'', ''a.mp4'']"]
    new_video_resets [of "demo\<lparr>current_video_index := 1\<rparr>" demo_opener "[]"]
  by (simp add: demo_def demo_opener_def demo_found)

lemma endswith_length: "endswith name sfx \<Longrightarrow> length sfx \<le> length name"
  unfolding endswith_def
  by (metis diff_is_0_eq drop0 le_refl linorder_le_cases)

lemma glob_any_prefix: "glob_match [] sfx name = endswith name sfx"
  using endswith_length [of name sfx] by (auto simp: glob_match_def startswith_def)

lemma set_find_videos:
  "set (find_videos listing) =
     {f \<in> set listing. \<not> startswith f ''.'' \<and>
        (endswith f ''.mp4'' \<or> endswith f ''.avi'' \<or> endswith f ''.mov'' \<or> endswith f ''.MOV'')}"
  by (auto simp: find_videos_def video_extensions_def glob_def glob_any_prefix)

lemma video_files_load_current_video:
  "video_files (snd (load_current_video opener s)) = video_files s"
  by (simp add: load_current_video_def Let_def split: option.splits prod.splits)

lemma video_files_load_videos:
  "video_files (snd (load_videos opener listing s)) = sort (find_videos listing)"
  by (simp add: load_videos_def Let_def video_files_load_current_video)

text \<open>
  C10. After \<open>load_videos\<close> the video list holds exactly the names of the folder that do
  not start with a dot and end in \<open>.mp4\<close>, \<open>.avi\<close>, \<open>.mov\<close> or \<open>.MOV\<close>; it is sorted, and
  no name in it starts with a dot.
\<close>

theorem load_videos_listing:
  "set (video_files (snd (load_videos opener listing s))) =
     {f \<in> set listing. \<not> startswith f ''.'' \<and>
        (endswith f ''.mp4'' \<or> endswith f ''.avi'' \<or> endswith f ''.mov'' \<or> endswith f ''.MOV'')} \<and>
   sorted (video_files (snd (load_videos opener listing s))) \<and>
   (\<forall>f \<in> set (video_files (snd (load_videos opener listing s))). \<not> startswith f ''.'')"
  by (simp add: video_files_load_videos set_find_videos)

lemma demo_listing:
  "sort (find_videos [''b.mp4'', ''.a.mp4'', ''c.txt'', ''d.MOV'', ''e.MP4'', ''a.mp4''])
     = [''a.mp4'', ''b.mp4'', ''d.MOV'']"
  by code_simp

theorem load_videos_listing_witness:
  "video_files (snd (load_videos demo_opener
      [''b.mp4'', ''.a.mp4'', ''c.txt'', ''d.MOV'', ''e.MP4'', ''a.mp4''] demo))
     = [''a.mp4'', ''b.mp4'', ''d.MOV''] \<and>
   \<not> startswith ''a.mp4'' ''.'' \<and> \<not> startswith ''b.mp4'' ''.'' \<and> \<not> startswith ''d.MOV'' ''.''"
  using load_videos_listing [of demo_opener "[''b.mp4'', ''.a.mp4'', ''c.txt'', ''d.MOV'', ''e.MP4'', ''a.mp4'']" demo]
  by (simp add: video_files_load_videos demo_listing)

section \<open>Segment exporter\<close>

lemma write_range_frames:
  "0 \<le> pos \<Longrightarrow>
   write_range src pos ks = map (nth src) [nat pos ..< min (nat pos + length ks) (length src)]"
proof (induction ks arbitrary: pos)
  case Nil
  then show ?case by simp
next
  case (Cons k ks)
  show ?case
  proof (cases "pos < int (length src)")
    case True
    with Cons.prems have lt: "nat pos < length src" by linarith
    from Cons.prems have n: "nat (pos + 1) = Suc (nat pos)" by linarith
    from Cons.prems have "0 \<le> pos + 1" by simp
    from Cons.IH [OF this] True Cons.prems lt show ?thesis
      by (simp add: read_frame_def n upt_conv_Cons)
  next
    case False
    with Cons.prems have "length src \<le> nat pos" by linarith
    with False show ?thesis by (simp add: read_frame_def)
  qed
qed

lemma write_images_names:
  "write_images frames k = (zip (map frame_name [k ..< k + length frames]) frames, k + length frames)"
proof (induction frames arbitrary: k)
  case Nil
  then show ?case by simp
next
  case (Cons f frames)
  have "[k ..< k + length (f # frames)] = k # [Suc k ..< Suc k + length frames]"
    by (subst upt_rec) simp
  then show ?case by (simp add: Cons.IH)
qed

lemma create_segment_video_frames:
  assumes "0 \<le> start_time" and "0 \<le> end_time" and "0 \<le> v_fps src"
  shows "v_frames (create_segment_video src start_time end_time) =
           map (nth (v_frames src))
             [nat \<lfloor>fmul start_time (v_fps src)\<rfloor> ..<
                min (nat \<lfloor>fmul end_time (v_fps src)\<rfloor>) (length (v_frames src))]"
proof -
  let ?sf = "\<lfloor>fmul start_time (v_fps src)\<rfloor>" and ?ef = "\<lfloor>fmul end_time (v_fps src)\<rfloor>"
  from assms have nn: "0 \<le> fmul start_time (v_fps src)" "0 \<le> fmul end_time (v_fps src)"
    by (simp_all add: fmul_nonneg)
  then have p: "py_int (fmul start_time (v_fps src)) = ?sf"
      "py_int (fmul end_time (v_fps src)) = ?ef"
    by (simp_all add: py_int_nonneg)
  from nn have sf: "0 \<le> ?sf" and ef: "0 \<le> ?ef" by simp_all
  have len: "length [?sf..?ef - 1] = nat (?ef - ?sf)" by simp
  have "v_frames (create_segment_video src start_time end_time) =
          write_range (v_frames src) ?sf [?sf..?ef - 1]"
    by (simp add: create_segment_video_def Let_def p)
  also have "\<dots> = map (nth (v_frames src))
                     [nat ?sf ..< min (nat ?sf + nat (?ef - ?sf)) (length (v_frames src))]"
    using write_range_frames [OF sf, of "v_frames src" "[?sf..?ef - 1]"] by (simp only: len)
  also have "\<dots> = map (nth (v_frames src)) [nat ?sf ..< min (nat ?ef) (length (v_frames src))]"
  proof (cases "?sf \<le> ?ef")
    case True
    with sf have "nat ?sf + nat (?ef - ?sf) = nat ?ef" by linarith
    then show ?thesis by simp
  next
    case False
    with ef have "nat (?ef - ?sf) = 0" "nat ?ef \<le> nat ?sf" by linarith+
    then show ?thesis by simp
  qed
  finally show ?thesis .
qed

text \<open>
  C4, as stated, fails. The frame range comes from the double-precision product: for a
  start of 4.1 seconds at 30 frames per second (the time of frame 123) that product lies
  just below 123 and the clip starts at frame 122, where the floor of the exact product
  is 123. The rounding of the product goes either way: 0.7 times 10 is 7 in doubles,
  though the double nearest to 0.7, times 10, lies below 7. And the number in a frame's
  name has four digits only up to frame 9999: the image of frame 10000 is named with
  five.
\<close>

theorem export_counterexample:
  "v_frames (create_segment_video demo_source (41 / 10) (21 / 5)) = [122, 123, 124, 125] \<and>
   nat \<lfloor>41 / 10 * v_fps demo_source\<rfloor> = 123 \<and>
   py_int (fmul (7 / 10) 10) = 7 \<and> \<lfloor>round_double (7 / 10) * 10\<rfloor> = 6 \<and>
   frame_name 9999 = ''frame_10000.jpg''"
proof -
  have "v_frames (create_segment_video demo_source (41 / 10) (21 / 5)) = [122, 123, 124, 125]"
    by code_simp
  moreover have "nat \<lfloor>41 / 10 * v_fps demo_source\<rfloor> = 123"
    by (simp add: demo_source_def)
  moreover have "py_int (fmul (7 / 10) 10) = 7" by code_simp
  moreover have "\<lfloor>round_double (7 / 10) * 10\<rfloor> = 6" by code_simp
  moreover have "frame_name 9999 = ''frame_10000.jpg''"
    by (simp add: frame_name_def format_d_def zfill_def str_nat_step str_nat_small digit_char_def)
  ultimately show ?thesis by simp
qed

text \<open>
  C4, amended. For a segment with non-negative times on a source with a non-negative
  frame rate, the clip holds exactly the source frames from the truncated
  double-precision product of start and frame rate up to, but excluding, that of end and
  frame rate, cut short at the end of the source. Frame extraction of a clip that opens
  writes one image per clip frame, in order, the image of the frame with 0-based position
  \<open>i\<close> being named by \<open>frame_name i\<close>, and records that count; \<open>frame_name i\<close> is
  \<open>frame_\<close>, the decimal digits of \<open>i + 1\<close> zero-padded to at least four, and \<open>.jpg\<close>.
\<close>

theorem export_frames_contract:
  "(0 \<le> start_time \<and> 0 \<le> end_time \<and> 0 \<le> v_fps src \<longrightarrow>
      v_frames (create_segment_video src start_time end_time) =
        map (nth (v_frames src))
          [nat \<lfloor>fmul start_time (v_fps src)\<rfloor> ..<
             min (nat \<lfloor>fmul end_time (v_fps src)\<rfloor>) (length (v_frames src))]) \<and>
   (\<exists>md. extract_segment_frames video_name (Some clip) start_time end_time =
           Inr (zip (map frame_name [0 ..< length (v_frames clip)]) (v_frames clip), md) \<and>
         extracted_frames md = length (v_frames clip)) \<and>
   frame_name i = ''frame_'' @ four_or_more_digits (i + 1) @ ''.jpg''"
proof (intro conjI impI)
  assume "0 \<le> start_time \<and> 0 \<le> end_time \<and> 0 \<le> v_fps src"
  then show "v_frames (create_segment_video src start_time end_time) =
        map (nth (v_frames src))
          [nat \<lfloor>fmul start_time (v_fps src)\<rfloor> ..<
             min (nat \<lfloor>fmul end_time (v_fps src)\<rfloor>) (length (v_frames src))]"
    by (simp add: create_segment_video_frames)
next
  show "\<exists>md. extract_segment_frames video_name (Some clip) start_time end_time =
           Inr (zip (map frame_name [0 ..< length (v_frames clip)]) (v_frames clip), md) \<and>
         extracted_frames md = length (v_frames clip)"
    by (simp add: extract_segment_frames_def write_images_names)
next
  have "format_d 4 (int i + 1) = four_or_more_digits (i + 1)"
    using format_d_four_or_more [of "i + 1"] by (simp add: add.commute)
  then show "frame_name i = ''frame_'' @ four_or_more_digits (i + 1) @ ''.jpg''"
    by (simp add: frame_name_def)
qed

lemma demo_frame_names:
  "frame_name 0 = ''frame_0001.jpg''" "frame_name 59 = ''frame_0060.jpg''"
  "four_or_more_digits 1 = ''0001''" "four_or_more_digits 60 = ''0060''"
  "fmul 2 30 = 60" "fmul 4 30 = 120"
  by code_simp+

theorem export_frames_contract_witness:
  "length (v_frames (create_segment_video demo_source 2 4)) = 60 \<and>
   hd (v_frames (create_segment_video demo_source 2 4)) = 60 \<and>
   last (v_frames (create_segment_video demo_source 2 4)) = 119 \<and>
   (\<exists>md. extract_segment_frames ''a.mp4'' (Some (create_segment_video demo_source 2 4)) 2 4 =
           Inr (zip (map frame_name [0 ..< 60]) (v_frames (create_segment_video demo_source 2 4)), md) \<and>
         extracted_frames md = 60) \<and>
   frame_name 0 = ''frame_0001.jpg'' \<and> frame_name 59 = ''frame_0060.jpg''"
proof -
  have c: "v_frames (create_segment_video demo_source 2 4) = map (nth [0..<200]) [60..<120]"
    using export_frames_contract [of 2 4 demo_source "''a.mp4''" "create_segment_video demo_source 2 4" 0]
    by (simp add: demo_source_def demo_frame_names)
  have l: "length (v_frames (create_segment_video demo_source 2 4)) = 60" by (simp add: c)
  have h: "hd (v_frames (create_segment_video demo_source 2 4)) = 60"
    by (simp add: c hd_map upt_conv_Cons)
  have t: "last (v_frames (create_segment_video demo_source 2 4)) = 119"
    by (simp add: c last_map)
  from export_frames_contract [of 2 4 demo_source "''a.mp4''" "create_segment_video demo_source 2 4" 0]
       export_frames_contract [of 2 4 demo_source "''a.mp4''" "create_segment_video demo_source 2 4" 59]
  show ?thesis by (simp add: l h t demo_frame_names)
qed

section \<open>Dataset unifier\<close>

lemma set_fold_insert: "set (fold List.insert xs ys) = set xs \<union> set ys"
  by (induction xs arbitrary: ys) auto

lemma copy_frames_result:
  "copy_frames copy2 copy seg fs (k, t, imgs) =
     (k + length (filter (\<lambda>f. copy2 seg f \<or> copy seg f) fs),
      t + length (filter (\<lambda>f. copy2 seg f \<or> copy seg f) fs),
      fold List.insert (map (\<lambda>f. seg @ ''_'' @ f) (filter (\<lambda>f. copy2 seg f \<or> copy seg f) fs)) imgs)"
  by (induction fs arbitrary: k t imgs) (simp_all add: Let_def)

lemma metadata_ok_Cons:
  "metadata_ok copy2 ((seg, folder) # folders) \<longleftrightarrow>
     (\<exists>metas'. \<forall>metas. load_metadata copy2 seg folder metas =
         Inr (parsed_metadata folder, metas' metas)) \<and> metadata_ok copy2 folders"
proof (cases "metadata_json folder")
  case None
  then show ?thesis
    by (auto simp: metadata_ok_def load_metadata_def parsed_metadata_def)
next
  case (Some j)
  then show ?thesis
    by (cases j) (auto simp: metadata_ok_def load_metadata_def parsed_metadata_def)
qed

lemma metadata_not_ok_Cons:
  "\<not> metadata_ok copy2 ((seg, folder) # folders) \<Longrightarrow>
     (\<exists>e. \<forall>metas. load_metadata copy2 seg folder metas = Inl e) \<or>
     ((\<exists>metas'. \<forall>metas. load_metadata copy2 seg folder metas =
         Inr (parsed_metadata folder, metas' metas)) \<and> \<not> metadata_ok copy2 folders)"
proof (cases "metadata_json folder")
  case None
  assume "\<not> metadata_ok copy2 ((seg, folder) # folders)"
  with None show ?thesis
    by (auto simp: metadata_ok_def load_metadata_def parsed_metadata_def)
next
  case (Some j)
  assume "\<not> metadata_ok copy2 ((seg, folder) # folders)"
  with Some show ?thesis
    by (cases j) (auto simp: metadata_ok_def load_metadata_def parsed_metadata_def)
qed

lemma process_folders_ok:
  "metadata_ok copy2 folders \<Longrightarrow>
   \<exists>images' metas'.
     process_folders copy2 copy folders (t, imgs, metas, infos) =
       (None, t + length (unified_names copy2 copy folders), images', metas',
        infos @ segment_infos copy2 copy folders) \<and>
     set images' = set imgs \<union> set (unified_names copy2 copy folders)"
proof (induction folders arbitrary: t imgs metas infos)
  case Nil
  then show ?case by (simp add: unified_names_def segment_infos_def)
next
  case (Cons a folders)
  obtain seg folder where a: "a = (seg, folder)" by (cases a)
  from Cons.prems obtain metas' where
    lm: "\<And>metas. load_metadata copy2 seg folder metas = Inr (parsed_metadata folder, metas' metas)"
    and ok: "metadata_ok copy2 folders"
    unfolding a metadata_ok_Cons by blast
  let ?ok = "copied_from copy2 copy seg folder"
  let ?imgs = "fold List.insert (map (\<lambda>f. seg @ ''_'' @ f) ?ok) imgs"
  let ?info = "\<lparr>segment_name = seg, frames_count = length ?ok,
                 metadata = parsed_metadata folder\<rparr>"
  from Cons.IH [OF ok, of "t + length ?ok" ?imgs "metas' metas" "infos @ [?info]"]
  obtain images' metas'' where
    r: "process_folders copy2 copy folders (t + length ?ok, ?imgs, metas' metas, infos @ [?info]) =
          (None, t + length ?ok + length (unified_names copy2 copy folders), images', metas'',
           (infos @ [?info]) @ segment_infos copy2 copy folders)"
    and s: "set images' = set ?imgs \<union> set (unified_names copy2 copy folders)"
    by blast
  have step: "process_folders copy2 copy (a # folders) (t, imgs, metas, infos) =
                process_folders copy2 copy folders
                  (t + length ?ok, ?imgs, metas' metas, infos @ [?info])"
    by (simp add: a lm copy_frames_result copied_from_def Let_def)
  have u: "unified_names copy2 copy (a # folders) =
             map (\<lambda>f. seg @ ''_'' @ f) ?ok @ unified_names copy2 copy folders"
    by (simp add: a unified_names_def)
  have i: "segment_infos copy2 copy (a # folders) = ?info # segment_infos copy2 copy folders"
    by (simp add: a segment_infos_def)
  show ?case
    unfolding step r u i
    by (rule exI [of _ images'], rule exI [of _ metas''])
       (simp add: s set_fold_insert Un_assoc Un_commute Un_left_commute)
qed

lemma process_folders_fail:
  "\<not> metadata_ok copy2 folders \<Longrightarrow>
   fst (process_folders copy2 copy folders (t, imgs, metas, infos)) \<noteq> None"
proof (induction folders arbitrary: t imgs metas infos)
  case Nil
  then show ?case by (simp add: metadata_ok_def)
next
  case (Cons a folders)
  obtain seg folder where a: "a = (seg, folder)" by (cases a)
  from Cons.prems [unfolded a, THEN metadata_not_ok_Cons] show ?case
  proof
    assume "\<exists>e. \<forall>metas. load_metadata copy2 seg folder metas = Inl e"
    then show ?thesis by (auto simp: a)
  next
    assume "(\<exists>metas'. \<forall>metas. load_metadata copy2 seg folder metas =
               Inr (parsed_metadata folder, metas' metas)) \<and> \<not> metadata_ok copy2 folders"
    then obtain metas' where
      lm: "\<And>metas. load_metadata copy2 seg folder metas = Inr (parsed_metadata folder, metas' metas)"
      and bad: "\<not> metadata_ok copy2 folders"
      by blast
    show ?thesis
      by (simp add: a lm copy_frames_result Let_def Cons.IH [OF bad])
  qed
qed

text \<open>
  C2. When the frames directory holds at least one folder and every \<open>metadata.json\<close>
  among the folders parses and is copied, the run completes and writes a summary whose
  total frame count is the number of frames copied (at the first or the second attempt)
  from the folders in sorted order, and whose segment count is the number of folders,
  whatever each contributed; the summary lists one entry per folder with its own count.
  The unified images directory then holds what it held before and the copied frames, each
  under the name \<open><folder>_<frame>\<close>. When a \<open>metadata.json\<close> does not parse or is not
  copied, the run ends with that exception and the summary file is left as it was.
\<close>

theorem unify_summary_counts:
  "frames_dir fs = Some listing \<and> (\<exists>e \<in> set listing. is_dir (snd e)) \<longrightarrow>
     (metadata_ok copy2 (sort_key fst (filter (\<lambda>e. is_dir (snd e)) listing)) \<longrightarrow>
        (\<exists>summary fs' images.
           create_unified_dataset copy2 copy fs = (Inr summary, fs') \<and>
           summary_file fs' = Some summary \<and>
           summary_total_frames summary =
             length (unified_names copy2 copy (sort_key fst (filter (\<lambda>e. is_dir (snd e)) listing))) \<and>
           summary_total_segments summary = length (filter (\<lambda>e. is_dir (snd e)) listing) \<and>
           summary_segments summary =
             segment_infos copy2 copy (sort_key fst (filter (\<lambda>e. is_dir (snd e)) listing)) \<and>
           dataset_images_dir fs' = Some images \<and>
           set images =
             set (case_option [] id (dataset_images_dir fs)) \<union>
             set (unified_names copy2 copy (sort_key fst (filter (\<lambda>e. is_dir (snd e)) listing))))) \<and>
     (\<not> metadata_ok copy2 (sort_key fst (filter (\<lambda>e. is_dir (snd e)) listing)) \<longrightarrow>
        (\<exists>e fs'. create_unified_dataset copy2 copy fs = (Inl e, fs') \<and>
                 summary_file fs' = summary_file fs))"
proof
  assume a: "frames_dir fs = Some listing \<and> (\<exists>e \<in> set listing. is_dir (snd e))"
  let ?folders = "sort_key fst (filter (\<lambda>e. is_dir (snd e)) listing)"
  let ?img0 = "case_option [] id (mkdir_exist_ok (dataset_images_dir fs))"
  let ?met0 = "case_option [] id (mkdir_exist_ok (dataset_metadata_dir fs))"
  from a have ne: "listing \<noteq> []" by auto
  from a have "filter (\<lambda>e. is_dir (snd e)) listing \<noteq> []" by (simp add: filter_empty_conv)
  then have fne: "?folders \<noteq> []" by (metis length_sort length_0_conv)
  have i0: "?img0 = case_option [] id (dataset_images_dir fs)"
    by (simp add: mkdir_exist_ok_def split: option.splits)
  show "(metadata_ok copy2 ?folders \<longrightarrow>
        (\<exists>summary fs' images.
           create_unified_dataset copy2 copy fs = (Inr summary, fs') \<and>
           summary_file fs' = Some summary \<and>
           summary_total_frames summary = length (unified_names copy2 copy ?folders) \<and>
           summary_total_segments summary = length (filter (\<lambda>e. is_dir (snd e)) listing) \<and>
           summary_segments summary = segment_infos copy2 copy ?folders \<and>
           dataset_images_dir fs' = Some images \<and>
           set images =
             set (case_option [] id (dataset_images_dir fs)) \<union>
             set (unified_names copy2 copy ?folders))) \<and>
     (\<not> metadata_ok copy2 ?folders \<longrightarrow>
        (\<exists>e fs'. create_unified_dataset copy2 copy fs = (Inl e, fs') \<and>
                 summary_file fs' = summary_file fs))"
  proof (intro conjI impI)
    assume "metadata_ok copy2 ?folders"
    from process_folders_ok [OF this, of copy 0 ?img0 ?met0 "[]"]
    obtain images metas where
      r: "process_folders copy2 copy ?folders (0, ?img0, ?met0, []) =
            (None, length (unified_names copy2 copy ?folders), images, metas,
             segment_infos copy2 copy ?folders)"
      and "set images = set ?img0 \<union> set (unified_names copy2 copy ?folders)"
      by auto
    then have im: "set images = set (case_option [] id (dataset_images_dir fs)) \<union>
                     set (unified_names copy2 copy ?folders)"
      by (simp only: i0)
    let ?summary = "\<lparr>summary_total_frames = length (unified_names copy2 copy ?folders),
                      summary_total_segments = length ?folders,
                      summary_segments = segment_infos copy2 copy ?folders\<rparr>"
    let ?fs' = "fs\<lparr>unified_dataset_dir := True,
                   dataset_images_dir := Some images,
                   dataset_metadata_dir := Some metas,
                   summary_file := Some ?summary,
                   frame_list_file := Some (sort (glob images [] ''.jpg''))\<rparr>"
    have c: "create_unified_dataset copy2 copy fs = (Inr ?summary, ?fs')"
      using a ne fne by (simp add: create_unified_dataset_def Let_def r)
    show "\<exists>summary fs' images.
           create_unified_dataset copy2 copy fs = (Inr summary, fs') \<and>
           summary_file fs' = Some summary \<and>
           summary_total_frames summary = length (unified_names copy2 copy ?folders) \<and>
           summary_total_segments summary = length (filter (\<lambda>e. is_dir (snd e)) listing) \<and>
           summary_segments summary = segment_infos copy2 copy ?folders \<and>
           dataset_images_dir fs' = Some images \<and>
           set images =
             set (case_option [] id (dataset_images_dir fs)) \<union>
             set (unified_names copy2 copy ?folders)"
      by (rule exI [of _ ?summary], rule exI [of _ ?fs'], rule exI [of _ images])
         (simp add: c im)
  next
    assume "\<not> metadata_ok copy2 ?folders"
    from process_folders_fail [OF this, of copy 0 ?img0 ?met0 "[]"]
    obtain e total images metas infos where
      r: "process_folders copy2 copy ?folders (0, ?img0, ?met0, []) =
            (Some e, total, images, metas, infos)"
      by (cases "process_folders copy2 copy ?folders (0, ?img0, ?met0, [])") auto
    let ?fs' = "fs\<lparr>unified_dataset_dir := True,
                   dataset_images_dir := Some images,
                   dataset_metadata_dir := Some metas\<rparr>"
    have c: "create_unified_dataset copy2 copy fs = (Inl e, ?fs')"
      using a ne fne by (simp add: create_unified_dataset_def Let_def r)
    show "\<exists>e fs'. create_unified_dataset copy2 copy fs = (Inl e, fs') \<and>
                 summary_file fs' = summary_file fs"
      by (rule exI [of _ e], rule exI [of _ ?fs']) (simp add: c)
  qed
qed

lemma two_folders_names:
  "unified_names always_ok always_ok
     (sort_key fst (filter (\<lambda>e. is_dir (snd e))
        [(''b_segment_1'', Folder [''frame_0002.jpg'', ''frame_0001.jpg''] None),
         (''a_segment_1'',
            Folder [''frame_0001.jpg'', ''frame_0002.jpg'', ''frame_0003.jpg'']
              (Some (Wellformed ''{}'')))]))
   = [''a_segment_1_frame_0001.jpg'', ''a_segment_1_frame_0002.jpg'',
      ''a_segment_1_frame_0003.jpg'', ''b_segment_1_frame_0001.jpg'',
      ''b_segment_1_frame_0002.jpg'']"
  by code_simp

lemma two_folders_metadata:
  "metadata_ok always_ok
     (sort_key fst (filter (\<lambda>e. is_dir (snd e))
        [(''b_segment_1'', Folder [''frame_0002.jpg'', ''frame_0001.jpg''] None),
         (''a_segment_1'',
            Folder [''frame_0001.jpg'', ''frame_0002.jpg'', ''frame_0003.jpg'']
              (Some (Wellformed ''{}'')))]))"
  "\<not> metadata_ok always_ok
     (sort_key fst (filter (\<lambda>e. is_dir (snd e))
        [(''b_segment_1'', Folder [''frame_0002.jpg'', ''frame_0001.jpg''] (Some Malformed)),
         (''a_segment_1'',
            Folder [''frame_0001.jpg'', ''frame_0002.jpg'', ''frame_0003.jpg'']
              (Some (Wellformed ''{}'')))]))"
  by code_simp+

theorem unify_summary_counts_witness:
  "(\<exists>summary fs' images.
     create_unified_dataset always_ok always_ok two_folders_fs = (Inr summary, fs') \<and>
     summary_file fs' = Some summary \<and>
     summary_total_frames summary = 5 \<and> summary_total_segments summary = 2 \<and>
     dataset_images_dir fs' = Some images \<and>
     set images = {''a_segment_1_frame_0001.jpg'', ''a_segment_1_frame_0002.jpg'',
      ''a_segment_1_frame_0003.jpg'', ''b_segment_1_frame_0001.jpg'',
      ''b_segment_1_frame_0002.jpg''}) \<and>
   (\<exists>e fs'. create_unified_dataset always_ok always_ok bad_metadata_fs = (Inl e, fs') \<and>
            summary_file fs' = None)"
proof
  let ?listing = "[(''b_segment_1'', Folder [''frame_0002.jpg'', ''frame_0001.jpg''] None),
         (''a_segment_1'',
            Folder [''frame_0001.jpg'', ''frame_0002.jpg'', ''frame_0003.jpg'']
              (Some (Wellformed ''{}'')))]"
  have h: "frames_dir two_folders_fs = Some ?listing \<and> (\<exists>e \<in> set ?listing. is_dir (snd e))"
    by (simp add: two_folders_fs_def)
  have o: "case_option [] id (dataset_images_dir two_folders_fs) = []"
    by (simp add: two_folders_fs_def)
  from unify_summary_counts [of two_folders_fs ?listing always_ok always_ok] h
    two_folders_metadata(1)
  obtain summary fs' images where
    "create_unified_dataset always_ok always_ok two_folders_fs = (Inr summary, fs')"
    "summary_file fs' = Some summary"
    "summary_total_frames summary =
       length (unified_names always_ok always_ok (sort_key fst (filter (\<lambda>e. is_dir (snd e)) ?listing)))"
    "summary_total_segments summary = length (filter (\<lambda>e. is_dir (snd e)) ?listing)"
    "dataset_images_dir fs' = Some images"
    "set images = set (case_option [] id (dataset_images_dir two_folders_fs)) \<union>
       set (unified_names always_ok always_ok (sort_key fst (filter (\<lambda>e. is_dir (snd e)) ?listing)))"
    by blast
  then show "\<exists>summary fs' images.
     create_unified_dataset always_ok always_ok two_folders_fs = (Inr summary, fs') \<and>
     summary_file fs' = Some summary \<and>
     summary_total_frames summary = 5 \<and> summary_total_segments summary = 2 \<and>
     dataset_images_dir fs' = Some images \<and>
     set images = {''a_segment_1_frame_0001.jpg'', ''a_segment_1_frame_0002.jpg'',
      ''a_segment_1_frame_0003.jpg'', ''b_segment_1_frame_0001.jpg'',
      ''b_segment_1_frame_0002.jpg''}"
    unfolding two_folders_names o
    by (intro exI [of _ summary] exI [of _ fs'] exI [of _ images]) simp
next
  let ?listing = "[(''b_segment_1'', Folder [''frame_0002.jpg'', ''frame_0001.jpg''] (Some Malformed)),
         (''a_segment_1'',
            Folder [''frame_0001.jpg'', ''frame_0002.jpg'', ''frame_0003.jpg'']
              (Some (Wellformed ''{}'')))]"
  have h: "frames_dir bad_metadata_fs = Some ?listing \<and> (\<exists>e \<in> set ?listing. is_dir (snd e))"
    by (simp add: bad_metadata_fs_def)
  have o: "summary_file bad_metadata_fs = None" by (simp add: bad_metadata_fs_def)
  from unify_summary_counts [of bad_metadata_fs ?listing always_ok always_ok] h
    two_folders_metadata(2)
  show "\<exists>e fs'. create_unified_dataset always_ok always_ok bad_metadata_fs = (Inl e, fs') \<and>
            summary_file fs' = None"
    unfolding o by blast
qed

text \<open>
  C3, as stated, fails: when the frames directory holds entries but no folder, the run
  reports that no segment folder was found only after it has created the unified dataset
  directory and its images and metadata directories.
\<close>

theorem unify_precondition_counterexample:
  "frames_dir stray_file_fs = Some [(''notes.txt'', RegularFile)] \<and>
   fst (create_unified_dataset always_ok always_ok stray_file_fs) = Inl NoSegmentFolders \<and>
   \<not> unified_dataset_dir stray_file_fs \<and>
   unified_dataset_dir (snd (create_unified_dataset always_ok always_ok stray_file_fs)) \<and>
   dataset_images_dir (snd (create_unified_dataset always_ok always_ok stray_file_fs)) = Some [] \<and>
   dataset_metadata_dir (snd (create_unified_dataset always_ok always_ok stray_file_fs)) = Some []"
  by (simp add: create_unified_dataset_def stray_file_fs_def mkdir_exist_ok_def Let_def)

text \<open>
  C3, amended. When the frames directory is absent or empty, the run reports it and
  leaves the project tree as it was. When the frames directory holds entries but no
  folder, the run reports it after creating the unified dataset directory and its images
  and metadata directories where they were absent, and changes nothing else.
\<close>

theorem unify_precondition_amended:
  "(frames_dir fs = None \<or> frames_dir fs = Some [] \<longrightarrow>
      create_unified_dataset copy2 copy fs = (Inl NoExtractedFrames, fs)) \<and>
   (frames_dir fs = Some listing \<and> listing \<noteq> [] \<and> (\<forall>e \<in> set listing. \<not> is_dir (snd e)) \<longrightarrow>
      create_unified_dataset copy2 copy fs =
        (Inl NoSegmentFolders,
         fs\<lparr>unified_dataset_dir := True,
            dataset_images_dir := mkdir_exist_ok (dataset_images_dir fs),
            dataset_metadata_dir := mkdir_exist_ok (dataset_metadata_dir fs)\<rparr>))"
proof (intro conjI impI)
  assume "frames_dir fs = None \<or> frames_dir fs = Some []"
  then show "create_unified_dataset copy2 copy fs = (Inl NoExtractedFrames, fs)"
    by (auto simp: create_unified_dataset_def)
next
  assume a: "frames_dir fs = Some listing \<and> listing \<noteq> [] \<and> (\<forall>e \<in> set listing. \<not> is_dir (snd e))"
  then have "filter (\<lambda>f. is_dir (snd f)) listing = []" by (simp add: filter_empty_conv)
  with a show "create_unified_dataset copy2 copy fs =
        (Inl NoSegmentFolders,
         fs\<lparr>unified_dataset_dir := True,
            dataset_images_dir := mkdir_exist_ok (dataset_images_dir fs),
            dataset_metadata_dir := mkdir_exist_ok (dataset_metadata_dir fs)\<rparr>)"
    by (simp add: create_unified_dataset_def Let_def)
qed

theorem unify_precondition_amended_witness:
  "create_unified_dataset always_ok always_ok (stray_file_fs\<lparr>frames_dir := None\<rparr>)
     = (Inl NoExtractedFrames, stray_file_fs\<lparr>frames_dir := None\<rparr>) \<and>
   create_unified_dataset always_ok always_ok (stray_file_fs\<lparr>frames_dir := Some []\<rparr>)
     = (Inl NoExtractedFrames, stray_file_fs\<lparr>frames_dir := Some []\<rparr>) \<and>
   create_unified_dataset always_ok always_ok stray_file_fs
     = (Inl NoSegmentFolders, stray_file_fs\<lparr>unified_dataset_dir := True,
            dataset_images_dir := Some [], dataset_metadata_dir := Some []\<rparr>)"
  using unify_precondition_amended [of "stray_file_fs\<lparr>frames_dir := None\<rparr>" always_ok always_ok "[]"]
    unify_precondition_amended [of "stray_file_fs\<lparr>frames_dir := Some []\<rparr>" always_ok always_ok "[]"]
    unify_precondition_amended [of stray_file_fs always_ok always_ok "[(''notes.txt'', RegularFile)]"]
  by (simp add: stray_file_fs_def mkdir_exist_ok_def)

end
